theory Spec2Isabelle
  imports Complex_Main "HOL-Library.Word"
begin

chapter \<open>The L2 to L1 message relayer\<close>

text \<open>
  A model of \<^verbatim>\<open>MessageRelayerService\<close>
  (\<^verbatim>\<open>packages/message-relayer/src/service/message-relayer.service.ts\<close>) and proofs about
  its relay loop, its batch lookup, its message scan and its proof construction.

  The methods keep their names without the leading underscore: \<open>init\<close>,
  \<open>sanityChecks\<close>, \<open>getStateBatchHeader\<close>, \<open>isTransactionFinalized\<close>,
  \<open>getSentMessages\<close>, \<open>wasMessageRelayed\<close>, \<open>getMessageProof\<close>,
  \<open>relayMessageToL1\<close>. The body of \<^verbatim>\<open>_start\<close> is split along its loops: \<open>run\<close> is
  the outer \<^verbatim>\<open>while\<close> loop, \<open>tick\<close> one pass of it, \<open>advance\<close> the inner
  \<^verbatim>\<open>while\<close> loop on the cursor, \<open>relayMessages\<close> the \<^verbatim>\<open>for\<close> loop over the
  messages. Inside \<^verbatim>\<open>_getMessageProof\<close>, \<open>messageSlot\<close> is the slot computation and
  \<open>assembleProof\<close> everything from the padding of the state roots on.

  An \<^verbatim>\<open>await\<close>ed call that rejects and a \<^verbatim>\<open>throw\<close> are the left side of a sum;
  \<^verbatim>\<open>undefined\<close> is \<open>None\<close>. What the service logs, how long it sleeps and what it
  submits is collected in a trace.
\<close>

section \<open>Bytes, hex strings and hashing\<close>

text \<open>
  The service handles binary data in two shapes: hex strings (\<^verbatim>\<open>'0x...'\<close>, the form
  in which event arguments, decoded calldata, addresses and hashes reach it) and
  \<^verbatim>\<open>Buffer\<close>s (the Merkle leaves). It glues hex strings with \<^verbatim>\<open>+\<close> and
  \<^verbatim>\<open>slice(2)\<close>, so both shapes are modelled, with the conversions between them. The
  conversions are those of the \<^verbatim>\<open>ethers\<close> utilities and of Node's \<^verbatim>\<open>Buffer\<close>, which
  the service imports.
\<close>

type_synonym bytes = "8 word list"

text \<open>
  What the service can throw or be thrown at: a failed RPC, a payload that the ABI decoder
  refuses, a string that is not hex data, a property read on \<^verbatim>\<open>undefined\<close>, and the
  three strings the service throws itself.
\<close>

datatype error =
    RpcError
  | DecodeError
  | InvalidHex
  | TypeError
  | NegativeStartingHeight
  | NoProofFound
  | NoEventsFound

text \<open>One lower-case hex digit, as \<^verbatim>\<open>hexlify\<close> emits it.\<close>

definition hexdigit :: "nat \<Rightarrow> char" where
  "hexdigit n = (if n < 10 then char_of (48 + n) else char_of (87 + n))"

text \<open>The value of a hex digit; both cases are accepted (\<^verbatim>\<open>/^0x[0-9A-Fa-f]*$/\<close>).\<close>

definition hexval :: "char \<Rightarrow> nat option" where
  "hexval c =
     (let n = (of_char c :: nat) in
      if 48 \<le> n \<and> n \<le> 57 then Some (n - 48)
      else if 97 \<le> n \<and> n \<le> 102 then Some (n - 87)
      else if 65 \<le> n \<and> n \<le> 70 then Some (n - 55)
      else None)"

definition hexbyte :: "8 word \<Rightarrow> string" where
  "hexbyte b = [hexdigit (unat b div 16), hexdigit (unat b mod 16)]"

definition hexbody :: "bytes \<Rightarrow> string" where
  "hexbody bs = concat (map hexbyte bs)"

text \<open>\<^verbatim>\<open>hexlify\<close>: the \<^verbatim>\<open>0x\<close>-prefixed lower-case hex string of a byte sequence.\<close>

definition hexlify :: "bytes \<Rightarrow> string" where
  "hexlify bs = ''0x'' @ hexbody bs"

text \<open>Pairs of hex digits back to bytes; an odd length or a non-hex character is refused.\<close>

fun unhex :: "string \<Rightarrow> bytes option" where
  "unhex [] = Some []"
| "unhex [c] = None"
| "unhex (c # d # cs) =
     (case hexval c of
        None \<Rightarrow> None
      | Some h \<Rightarrow>
          (case hexval d of
             None \<Rightarrow> None
           | Some l \<Rightarrow>
               (case unhex cs of
                  None \<Rightarrow> None
                | Some bs \<Rightarrow> Some (word_of_nat (16 * h + l) # bs))))"

text \<open>\<^verbatim>\<open>arrayify\<close> of a string: it must be \<^verbatim>\<open>0x\<close> followed by an even number of hex digits.\<close>

definition arrayify :: "string \<Rightarrow> bytes option" where
  "arrayify s = (if take 2 s = ''0x'' then unhex (drop 2 s) else None)"

text \<open>
  \<^verbatim>\<open>Buffer.from(s, 'hex')\<close>: decodes pairs of hex digits and stops at the first pair
  that is not one.
\<close>

fun buffer_from_hex :: "string \<Rightarrow> bytes" where
  "buffer_from_hex (c # d # cs) =
     (case hexval c of
        None \<Rightarrow> []
      | Some h \<Rightarrow>
          (case hexval d of
             None \<Rightarrow> []
           | Some l \<Rightarrow> word_of_nat (16 * h + l) # buffer_from_hex cs))"
| "buffer_from_hex cs = []"

text \<open>
  \<^verbatim>\<open>ethers.utils.keccak256\<close> on a hex string and on a \<^verbatim>\<open>Buffer\<close>. The Keccak-256
  function on bytes itself is the parameter \<open>K\<close>: nothing below depends on what it
  computes. An argument that is not a hex string makes the call throw.
\<close>

definition keccak256 :: "(bytes \<Rightarrow> bytes) \<Rightarrow> string \<Rightarrow> error + string" where
  "keccak256 K data =
     (case arrayify data of
        None \<Rightarrow> Inl InvalidHex
      | Some bs \<Rightarrow> Inr (hexlify (K bs)))"

definition keccak256_buffer :: "(bytes \<Rightarrow> bytes) \<Rightarrow> bytes \<Rightarrow> string" where
  "keccak256_buffer K b = hexlify (K b)"

text \<open>\<^verbatim>\<open>'00'.repeat(32)\<close>\<close>

definition zeros_hex :: string where
  "zeros_hex = concat (replicate 32 ''00'')"

definition zeros32 :: bytes where
  "zeros32 = replicate 32 0"

section \<open>Data model\<close>

text \<open>
  \<^verbatim>\<open>StateBatchHeader\<close>, \<^verbatim>\<open>SentMessage\<close> and \<^verbatim>\<open>MessageProof\<close> as the service builds
  them. Heights, sizes and nonces are JavaScript numbers or big numbers; they are
  modelled as unbounded integers. A field that the service may fill with
  \<^verbatim>\<open>undefined\<close> is an option.
\<close>

record StateBatchHeader =
  batchIndex :: int
  batchRoot :: string
  batchSize :: int
  prevTotalElements :: int
  extraData :: string
  stateRoots :: "string list"

record SentMessage =
  target :: string
  sender :: string
  data :: string
  nonce :: int
  calldata :: string
  hash :: string
  height :: int

record StateRootProof =
  index :: int
  siblings :: "bytes list"

record MessageProof =
  stateRoot :: "string option"
  stateRootBatchHeader :: StateBatchHeader
  stateRootProof :: StateRootProof
  stateTrieWitness :: bytes
  storageTrieWitness :: bytes

text \<open>A \<^verbatim>\<open>StateBatchAppended\<close> log: its arguments and the hash of its transaction.\<close>

record StateBatchAppended =
  args_batchIndex :: int
  args_batchRoot :: string
  args_batchSize :: int
  args_prevTotalElements :: int
  args_extraData :: string
  transactionHash :: string

text \<open>A \<^verbatim>\<open>SentMessage\<close> log of the L2 messenger.\<close>

record SentMessageEvent =
  args_message :: string
  blockNumber :: int

text \<open>The decoded arguments of \<^verbatim>\<open>relayMessage\<close>.\<close>

record RelayMessageArgs =
  args_target :: string
  args_sender :: string
  args_data :: string
  args_messageNonce :: int

text \<open>
  The answer of \<^verbatim>\<open>eth_getProof\<close>: \<open>storageProof\<close> holds the \<^verbatim>\<open>proof\<close> list of each
  requested slot.
\<close>

record EthProof =
  accountProof :: "string list"
  storageProof :: "string list list"

text \<open>
  What an RPC request resolves to: \<^verbatim>\<open>undefined\<close>, the JSON value \<^verbatim>\<open>null\<close>, or an
  object. The service treats them differently: it tests the answer of \<^verbatim>\<open>eth_getProof\<close>
  with \<^verbatim>\<open>=== undefined\<close>, a test that \<^verbatim>\<open>null\<close> does not meet.
\<close>

datatype 'a resolved = Undefined | Null | Value 'a

record MessageRelayerOptions =
  stateCommitmentChainAddress :: string
  l1CrossDomainMessengerAddress :: string
  l2CrossDomainMessengerAddress :: string
  l2ToL1MessagePasserAddress :: string
  l2ChainStartingHeight :: "int option"
  pollingInterval :: "int option"
  blockOffset :: "int option"

text \<open>
  Everything outside the service, as one pass of the loop sees it: the two chains behind
  the RPC providers, the ABI decoders, the RLP encoder and the signer's submission. Each
  call may fail. The environment is fixed during a pass and may be another one in the
  next pass. \<open>stateBatchAppendedLogs\<close> is the answer to the unbounded
  \<^verbatim>\<open>StateBatchAppended\<close> query, \<open>sentMessageLogs\<close> all \<^verbatim>\<open>SentMessage\<close> logs of the L2
  messenger, from which a query takes a block range. The block tag of \<^verbatim>\<open>eth_getProof\<close>
  is kept as the number it encodes.
\<close>

record env =
  l1_detectNetwork :: "error + unit"
  l2_detectNetwork :: "error + unit"
  stateBatchAppendedLogs :: "error + StateBatchAppended list"
  getTransaction :: "string \<Rightarrow> error + string"
  decodeAppendStateBatch :: "string \<Rightarrow> error + string list"
  insideFraudProofWindow :: "StateBatchHeader \<Rightarrow> error + bool"
  sentMessageLogs :: "error + SentMessageEvent list"
  decodeRelayMessage :: "string \<Rightarrow> error + RelayMessageArgs"
  successfulMessages :: "string \<Rightarrow> error + bool"
  eth_getProof :: "string \<Rightarrow> string list \<Rightarrow> int \<Rightarrow> error + EthProof resolved"
  rlp_encode :: "string list \<Rightarrow> bytes"
  relayMessage :: "SentMessage \<Rightarrow> MessageProof option \<Rightarrow> error + unit"

text \<open>What the service does that can be seen from outside, in order.\<close>

datatype logline =
    Checking
  | NoneFinalized
  | FoundBatch int
  | FoundTotal int
  | NoMessages
  | FoundMessage int
  | AlreadyRelayed
  | NotYetRelayed
  | ProofGenerated
  | Relayed
  | CouldNotRelay error
  | LoggedError error
  | WarnNoEvents
  | WarnPollingInterval

datatype action =
    Sleep int
  | Log logline
  | RelayMessage SentMessage "MessageProof option"

text \<open>
  The private fields of \<^verbatim>\<open>MessageRelayerService\<close> that the loop reads or writes, and
  the trace of its actions. The fields \<^verbatim>\<open>pollingInterval\<close> and \<^verbatim>\<open>blockOffset\<close> carry a
  suffix here, the options record having fields of the same names; of the contract
  handles only the two addresses that are read are kept.
\<close>

record service =
  l2CrossDomainMessenger_address :: string
  l2ToL1MessagePasser_address :: string
  pollingInterval_ms :: int
  lastFinalizedTxHeight :: int
  nextUnfinalizedTxHeight :: int
  blockOffset_blocks :: int
  trace :: "action list"

section \<open>Initialisation\<close>

text \<open>\<^verbatim>\<open>x || d\<close> on an optional number: \<^verbatim>\<open>undefined\<close> and \<^verbatim>\<open>0\<close> are falsy.\<close>

definition or_default :: "int option \<Rightarrow> int \<Rightarrow> int" where
  "or_default x d = (case x of None \<Rightarrow> d | Some v \<Rightarrow> if v = 0 then d else v)"

definition sanityChecks :: "env \<Rightarrow> MessageRelayerOptions \<Rightarrow> service \<Rightarrow> error + action list" where
  "sanityChecks e opts svc =
     (case l1_detectNetwork e of
        Inl err \<Rightarrow> Inl err
      | Inr _ \<Rightarrow>
          (case l2_detectNetwork e of
             Inl err \<Rightarrow> Inl err
           | Inr _ \<Rightarrow>
               if (case l2ChainStartingHeight opts of None \<Rightarrow> False | Some v \<Rightarrow> v < 0)
               then Inl NegativeStartingHeight
               else
                 (case stateBatchAppendedLogs e of
                    Inl err \<Rightarrow> Inl err
                  | Inr events \<Rightarrow>
                      Inr ((if length events = 0 then [Log WarnNoEvents] else []) @
                           (if pollingInterval_ms svc < 15000 \<or> pollingInterval_ms svc > 60000
                            then [Log WarnPollingInterval] else [])))))"

definition init :: "env \<Rightarrow> MessageRelayerOptions \<Rightarrow> error + service" where
  "init e opts =
     (let svc = \<lparr> l2CrossDomainMessenger_address = l2CrossDomainMessengerAddress opts,
                  l2ToL1MessagePasser_address = l2ToL1MessagePasserAddress opts,
                  pollingInterval_ms = or_default (pollingInterval opts) 5000,
                  lastFinalizedTxHeight = or_default (l2ChainStartingHeight opts) 0,
                  nextUnfinalizedTxHeight = or_default (l2ChainStartingHeight opts) 0,
                  blockOffset_blocks = or_default (blockOffset opts) 0,
                  trace = [] \<rparr>
      in case sanityChecks e opts svc of
           Inl err \<Rightarrow> Inl err
         | Inr warnings \<Rightarrow> Inr (svc\<lparr>trace := warnings\<rparr>))"

section \<open>Batch lookup\<close>

definition covers :: "StateBatchAppended \<Rightarrow> int \<Rightarrow> bool" where
  "covers ev h \<longleftrightarrow>
     args_prevTotalElements ev \<le> h \<and> args_prevTotalElements ev + args_batchSize ev > h"

definition getStateBatchHeader :: "env \<Rightarrow> int \<Rightarrow> error + StateBatchHeader option" where
  "getStateBatchHeader e h =
     (case stateBatchAppendedLogs e of
        Inl err \<Rightarrow> Inl err
      | Inr events \<Rightarrow>
          (case find (\<lambda>ev. covers ev h) events of
             None \<Rightarrow> Inr None
           | Some ev \<Rightarrow>
               (case getTransaction e (transactionHash ev) of
                  Inl err \<Rightarrow> Inl err
                | Inr txdata \<Rightarrow>
                    (case decodeAppendStateBatch e txdata of
                       Inl err \<Rightarrow> Inl err
                     | Inr roots \<Rightarrow>
                         Inr (Some \<lparr> batchIndex = args_batchIndex ev,
                                     batchRoot = args_batchRoot ev,
                                     batchSize = args_batchSize ev,
                                     prevTotalElements = args_prevTotalElements ev,
                                     extraData = args_extraData ev,
                                     stateRoots = roots \<rparr>)))))"

definition isTransactionFinalized :: "env \<Rightarrow> int \<Rightarrow> error + bool" where
  "isTransactionFinalized e h =
     (case getStateBatchHeader e h of
        Inl err \<Rightarrow> Inl err
      | Inr None \<Rightarrow> Inr False
      | Inr (Some batch) \<Rightarrow>
          (case insideFraudProofWindow e batch of
             Inl err \<Rightarrow> Inl err
           | Inr inside \<Rightarrow> Inr (\<not> inside)))"

section \<open>Message scanning\<close>

text \<open>\<^verbatim>\<open>Array.map\<close> with a callback that may throw: the first throw ends the map.\<close>

fun map_throwing :: "('a \<Rightarrow> error + 'b) \<Rightarrow> 'a list \<Rightarrow> error + 'b list" where
  "map_throwing f [] = Inr []"
| "map_throwing f (x # xs) =
     (case f x of
        Inl err \<Rightarrow> Inl err
      | Inr y \<Rightarrow>
          (case map_throwing f xs of
             Inl err \<Rightarrow> Inl err
           | Inr ys \<Rightarrow> Inr (y # ys)))"

text \<open>
  \<^verbatim>\<open>queryFilter(filter, fromBlock, toBlock)\<close> on the L2 messenger: the logs of the blocks
  from \<open>fromBlock\<close> to \<open>toBlock\<close>, in chain order. Both bounds are included: the call
  becomes an \<^verbatim>\<open>eth_getLogs\<close> request, whose block range is inclusive at both ends.
\<close>

definition queryFilter :: "env \<Rightarrow> int \<Rightarrow> int \<Rightarrow> error + SentMessageEvent list" where
  "queryFilter e fromBlock toBlock =
     (case sentMessageLogs e of
        Inl err \<Rightarrow> Inl err
      | Inr events \<Rightarrow>
          Inr (filter (\<lambda>ev. fromBlock \<le> blockNumber ev \<and> blockNumber ev \<le> toBlock) events))"

definition toSentMessage ::
  "(bytes \<Rightarrow> bytes) \<Rightarrow> env \<Rightarrow> int \<Rightarrow> SentMessageEvent \<Rightarrow> error + SentMessage" where
  "toSentMessage K e offset ev =
     (case decodeRelayMessage e (args_message ev) of
        Inl err \<Rightarrow> Inl err
      | Inr decoded \<Rightarrow>
          (case keccak256 K (args_message ev) of
             Inl err \<Rightarrow> Inl err
           | Inr h \<Rightarrow>
               Inr \<lparr> target = args_target decoded,
                     sender = args_sender decoded,
                     data = args_data decoded,
                     nonce = args_messageNonce decoded,
                     calldata = args_message ev,
                     hash = h,
                     height = blockNumber ev - offset \<rparr>))"

definition getSentMessages ::
  "(bytes \<Rightarrow> bytes) \<Rightarrow> env \<Rightarrow> service \<Rightarrow> int \<Rightarrow> int \<Rightarrow> error + SentMessage list" where
  "getSentMessages K e svc startHeight endHeight =
     (case queryFilter e (startHeight + blockOffset_blocks svc) (endHeight + blockOffset_blocks svc) of
        Inl err \<Rightarrow> Inl err
      | Inr events \<Rightarrow> map_throwing (toSentMessage K e (blockOffset_blocks svc)) events)"

definition wasMessageRelayed :: "env \<Rightarrow> SentMessage \<Rightarrow> error + bool" where
  "wasMessageRelayed e m = successfulMessages e (hash m)"

section \<open>Proof construction\<close>

text \<open>
  The storage slot of a message: \<^verbatim>\<open>keccak256(keccak256(calldata + address.slice(2)) +
  '00'.repeat(32))\<close>, on hex strings.
\<close>

definition messageSlot :: "(bytes \<Rightarrow> bytes) \<Rightarrow> service \<Rightarrow> SentMessage \<Rightarrow> error + string" where
  "messageSlot K svc m =
     (case keccak256 K (calldata m @ drop 2 (l2CrossDomainMessenger_address svc)) of
        Inl err \<Rightarrow> Inl err
      | Inr inner \<Rightarrow> keccak256 K (inner @ zeros_hex))"

text \<open>
  \<^verbatim>\<open>Math.ceil(Math.log2(n))\<close> for \<open>n \<ge> 1\<close>, computed on integers (the floating-point
  functions are taken as exact on the lengths of lists; \<open>ceil_log2_real\<close> below relates
  the integer function to the real logarithm). The loop bound
  \<^verbatim>\<open>Math.pow(2, Math.ceil(Math.log2(n)))\<close> is \<open>0\<close> for an empty list, where
  \<^verbatim>\<open>Math.log2(0)\<close> is minus infinity.
\<close>

fun ceil_log2 :: "nat \<Rightarrow> nat" where
  "ceil_log2 n = (if n \<le> 1 then 0 else Suc (ceil_log2 ((n + 1) div 2)))"

declare ceil_log2.simps [simp del]

definition padded_length :: "nat \<Rightarrow> nat" where
  "padded_length n = (if n = 0 then 0 else 2 ^ ceil_log2 n)"

definition elements :: "string list \<Rightarrow> string list" where
  "elements roots =
     map (\<lambda>i. if i < length roots then roots ! i else ''0x'' @ zeros_hex)
       [0 ..< padded_length (length roots)]"

text \<open>
  The local \<^verbatim>\<open>hash\<close>: \<^verbatim>\<open>Buffer.from(keccak256(el).slice(2), 'hex')\<close>, applied by the
  service to hex strings and by the Merkle tree to buffers.
\<close>

definition hash_string :: "(bytes \<Rightarrow> bytes) \<Rightarrow> string \<Rightarrow> error + bytes" where
  "hash_string K el =
     (case keccak256 K el of
        Inl err \<Rightarrow> Inl err
      | Inr h \<Rightarrow> Inr (buffer_from_hex (drop 2 h)))"

definition hash_buffer :: "(bytes \<Rightarrow> bytes) \<Rightarrow> bytes \<Rightarrow> bytes" where
  "hash_buffer K b = buffer_from_hex (drop 2 (keccak256_buffer K b))"

text \<open>
  Modelled from the spec: the \<^verbatim>\<open>MerkleTree\<close> class of the \<^verbatim>\<open>merkletreejs\<close> package (its
  constructor and \<^verbatim>\<open>getProof\<close>) is not among the sources. The specification describes
  it as a complete binary tree where each internal node is the hash of left and right
  child concatenated, and the proof as the sibling of the current node at each level,
  bottom-up. \<open>createHashes\<close> gives the layers, leaves first and root last. The
  specification is silent on a layer of odd length, which the padding to a power of two
  rules out below the root: there a node without a right neighbour moves up unchanged,
  and a layer where the current node has no sibling, as the root has none, adds nothing
  to the proof. A negative index gives the empty proof.
\<close>

fun hash_pairs :: "(bytes \<Rightarrow> bytes) \<Rightarrow> bytes list \<Rightarrow> bytes list" where
  "hash_pairs H (l # r # rest) = H (l @ r) # hash_pairs H rest"
| "hash_pairs H [x] = [x]"
| "hash_pairs H [] = []"

lemma length_hash_pairs: "length (hash_pairs H nodes) = (length nodes + 1) div 2"
  by (induction H nodes rule: hash_pairs.induct) simp_all

function createHashes :: "(bytes \<Rightarrow> bytes) \<Rightarrow> bytes list \<Rightarrow> bytes list list" where
  "createHashes H nodes =
     (if length nodes > 1 then nodes # createHashes H (hash_pairs H nodes) else [nodes])"
  by pat_completeness auto
termination
  by (relation "measure (\<lambda>(H, nodes). length nodes)") (auto simp: length_hash_pairs)

declare createHashes.simps [simp del]

definition getRoot :: "bytes list list \<Rightarrow> bytes" where
  "getRoot layers = (case last layers of [] \<Rightarrow> [] | r # _ \<Rightarrow> r)"

fun getProof_from :: "bytes list list \<Rightarrow> nat \<Rightarrow> bytes list" where
  "getProof_from [] i = []"
| "getProof_from (layer # layers) i =
     (let pairIndex = (if i mod 2 = 1 then i - 1 else i + 1) in
      (if pairIndex < length layer then [layer ! pairIndex] else []) @
      getProof_from layers (i div 2))"

definition getProof :: "bytes list list \<Rightarrow> int \<Rightarrow> bytes list" where
  "getProof layers i = (if i \<le> - 1 then [] else getProof_from layers (nat i))"

text \<open>
  Modelled from the spec: folding a leaf up with the siblings of a proof, the check of
  the specification's inclusion-proof property. The position decides on which side the
  sibling is hashed.
\<close>

fun fold_siblings :: "(bytes \<Rightarrow> bytes) \<Rightarrow> bytes \<Rightarrow> nat \<Rightarrow> bytes list \<Rightarrow> bytes" where
  "fold_siblings H node i [] = node"
| "fold_siblings H node i (s # ss) =
     fold_siblings H (if i mod 2 = 1 then H (s @ node) else H (node @ s)) (i div 2) ss"

text \<open>\<^verbatim>\<open>xs[i]\<close> on a JavaScript array: \<^verbatim>\<open>undefined\<close> outside the array.\<close>

definition array_get :: "'a list \<Rightarrow> int \<Rightarrow> 'a option" where
  "array_get xs i = (if 0 \<le> i \<and> i < int (length xs) then Some (xs ! nat i) else None)"

text \<open>
  Lines 294 to 330 of the service: the state-root tree and the assembled proof. The
  answer of \<^verbatim>\<open>eth_getProof\<close> is read only here, at the end: reading \<^verbatim>\<open>accountProof\<close> of
  \<^verbatim>\<open>null\<close>, or \<^verbatim>\<open>proof\<close> of a missing first storage proof, is a type error.
\<close>

definition assembleProof ::
  "(bytes \<Rightarrow> bytes) \<Rightarrow> env \<Rightarrow> StateBatchHeader \<Rightarrow> EthProof resolved \<Rightarrow> SentMessage \<Rightarrow>
     error + MessageProof" where
  "assembleProof K e batch answer m =
     (case map_throwing (hash_string K) (elements (stateRoots batch)) of
        Inl err \<Rightarrow> Inl err
      | Inr leaves \<Rightarrow>
          (let tree = createHashes (hash_buffer K) leaves;
               idx = height m - prevTotalElements batch;
               treeProof = getProof tree idx
           in case answer of
                Undefined \<Rightarrow> Inl TypeError
              | Null \<Rightarrow> Inl TypeError
              | Value prf \<Rightarrow>
                  (case storageProof prf of
                     [] \<Rightarrow> Inl TypeError
                   | sp # _ \<Rightarrow>
                       Inr \<lparr> stateRoot = array_get (stateRoots batch) idx,
                             stateRootBatchHeader = batch,
                             stateRootProof = \<lparr> index = idx, siblings = treeProof \<rparr>,
                             stateTrieWitness = rlp_encode e (accountProof prf),
                             storageTrieWitness = rlp_encode e sp \<rparr>)))"

text \<open>
  \<^verbatim>\<open>_getMessageProof\<close>: the value returned (\<open>None\<close> for \<^verbatim>\<open>undefined\<close>) or the error
  thrown, and the lines logged. The two \<^verbatim>\<open>try\<close> blocks turn a failure of
  \<^verbatim>\<open>eth_getProof\<close> or of the batch lookup into a logged error and a return without a
  value. An answer \<^verbatim>\<open>undefined\<close> is such a failure; an answer \<^verbatim>\<open>null\<close> is not and goes
  on to the batch lookup and the assembly.
\<close>

definition getMessageProof ::
  "(bytes \<Rightarrow> bytes) \<Rightarrow> env \<Rightarrow> service \<Rightarrow> SentMessage \<Rightarrow> (error + MessageProof option) \<times> action list" where
  "getMessageProof K e svc m =
     (case messageSlot K svc m of
        Inl err \<Rightarrow> (Inl err, [])
      | Inr slot \<Rightarrow>
          (case eth_getProof e (l2ToL1MessagePasser_address svc) [slot]
                  (height m + blockOffset_blocks svc) of
             Inl err \<Rightarrow> (Inr None, [Log (LoggedError err)])
           | Inr answer \<Rightarrow>
               if answer = Undefined then (Inr None, [Log (LoggedError NoProofFound)])
               else
                 (case getStateBatchHeader e (height m) of
                    Inl err \<Rightarrow> (Inr None, [Log (LoggedError err)])
                  | Inr None \<Rightarrow> (Inr None, [Log (LoggedError NoEventsFound)])
                  | Inr (Some batch) \<Rightarrow>
                      (case assembleProof K e batch answer m of
                         Inl err \<Rightarrow> (Inl err, [])
                       | Inr p \<Rightarrow> (Inr (Some p), [])))))"

definition relayMessageToL1 :: "env \<Rightarrow> SentMessage \<Rightarrow> MessageProof option \<Rightarrow> error + unit" where
  "relayMessageToL1 e m p = relayMessage e m p"

section \<open>The relay loop\<close>

text \<open>The \<^verbatim>\<open>for\<close> loop over the scanned messages: the error thrown, if any, and the actions.\<close>

fun relayMessages ::
  "(bytes \<Rightarrow> bytes) \<Rightarrow> env \<Rightarrow> service \<Rightarrow> SentMessage list \<Rightarrow> error option \<times> action list" where
  "relayMessages K e svc [] = (None, [])"
| "relayMessages K e svc (m # ms) =
     (case wasMessageRelayed e m of
        Inl err \<Rightarrow> (Some err, [Log (FoundMessage (height m))])
      | Inr True \<Rightarrow>
          (case relayMessages K e svc ms of
             (r, acts) \<Rightarrow> (r, [Log (FoundMessage (height m)), Log AlreadyRelayed] @ acts))
      | Inr False \<Rightarrow>
          (case getMessageProof K e svc m of
             (Inl err, logged) \<Rightarrow>
               (Some err, [Log (FoundMessage (height m)), Log NotYetRelayed] @ logged)
           | (Inr p, logged) \<Rightarrow>
               (case relayMessages K e svc ms of
                  (r, acts) \<Rightarrow>
                    (r, [Log (FoundMessage (height m)), Log NotYetRelayed] @ logged @
                        [Log ProofGenerated, RelayMessage m p,
                         (case relayMessageToL1 e m p of
                            Inl err \<Rightarrow> Log (CouldNotRelay err)
                          | Inr _ \<Rightarrow> Log Relayed)] @ acts))))"

text \<open>
  The inner \<^verbatim>\<open>while\<close> loop that advances \<^verbatim>\<open>nextUnfinalizedTxHeight\<close>: the error thrown,
  if any, the cursor reached and the lines logged. Reading \<^verbatim>\<open>batchSize\<close> of a missing
  header is a type error.
\<close>

definition horizon :: "env \<Rightarrow> int" where
  "horizon e =
     (case stateBatchAppendedLogs e of
        Inl _ \<Rightarrow> 0
      | Inr events \<Rightarrow>
          Max (insert 0 ((\<lambda>ev. args_prevTotalElements ev + args_batchSize ev) ` set events)))"

lemma find_covers:
  "find (\<lambda>ev. covers ev h) events = Some ev \<Longrightarrow> ev \<in> set events \<and> covers ev h"
  by (auto simp: find_Some_iff)

lemma getStateBatchHeader_Some_horizon:
  assumes "getStateBatchHeader e h = Inr (Some b)"
  shows "h < horizon e \<and> 0 < batchSize b"
proof -
  from assms obtain events ev where ev: "stateBatchAppendedLogs e = Inr events"
    "find (\<lambda>ev. covers ev h) events = Some ev" "batchSize b = args_batchSize ev"
    by (auto simp: getStateBatchHeader_def split: sum.splits option.splits)
  then have mem: "ev \<in> set events" and cov: "covers ev h"
    using find_covers by blast+
  have "args_prevTotalElements ev + args_batchSize ev
      \<le> Max (insert 0 ((\<lambda>ev. args_prevTotalElements ev + args_batchSize ev) ` set events))"
    using mem by (intro Max_ge) auto
  then show ?thesis
    using cov ev by (simp add: horizon_def covers_def)
qed

function advance :: "env \<Rightarrow> int \<Rightarrow> error option \<times> int \<times> action list" where
  "advance e n =
     (case isTransactionFinalized e n of
        Inl err \<Rightarrow> (Some err, n, [])
      | Inr finalized \<Rightarrow>
          if finalized then
            (case getStateBatchHeader e n of
               Inl err \<Rightarrow> (Some err, n, [])
             | Inr None \<Rightarrow> (Some TypeError, n, [])
             | Inr (Some b) \<Rightarrow>
                 (case advance e (n + batchSize b) of
                    (r, n', logged) \<Rightarrow> (r, n', Log (FoundBatch (batchSize b)) # logged)))
          else (None, n, []))"
  by pat_completeness auto
termination
proof (relation "measure (\<lambda>(e, n). nat (horizon e - n))", goal_cases)
  case 1
  show ?case by simp
next
  case (2 e n finalized x b)
  then show ?case
    using getStateBatchHeader_Some_horizon [of e n b] by simp
qed

declare advance.simps [simp del]

text \<open>
  One pass of the outer \<^verbatim>\<open>while\<close> loop: the error thrown out of the loop, if any, and
  the service after it.
\<close>

definition tick :: "(bytes \<Rightarrow> bytes) \<Rightarrow> env \<Rightarrow> service \<Rightarrow> error option \<times> service" where
  "tick K e svc =
     (let svc0 = svc\<lparr>trace := trace svc @ [Sleep (pollingInterval_ms svc), Log Checking]\<rparr> in
      case isTransactionFinalized e (nextUnfinalizedTxHeight svc0) of
        Inl err \<Rightarrow> (Some err, svc0)
      | Inr finalized \<Rightarrow>
          if \<not> finalized then (None, svc0\<lparr>trace := trace svc0 @ [Log NoneFinalized]\<rparr>)
          else
            (case advance e (nextUnfinalizedTxHeight svc0) of
               (r, n, logged) \<Rightarrow>
                 (let svc1 = svc0\<lparr>lastFinalizedTxHeight := nextUnfinalizedTxHeight svc0,
                                  nextUnfinalizedTxHeight := n,
                                  trace := trace svc0 @ logged\<rparr>
                  in case r of
                       Some err \<Rightarrow> (Some err, svc1)
                     | None \<Rightarrow>
                         (let svc2 = svc1\<lparr>trace := trace svc1 @
                                [Log (FoundTotal (nextUnfinalizedTxHeight svc1 - lastFinalizedTxHeight svc1))]\<rparr>
                          in case getSentMessages K e svc2 (lastFinalizedTxHeight svc2)
                                    (nextUnfinalizedTxHeight svc2) of
                               Inl err \<Rightarrow> (Some err, svc2)
                             | Inr messages \<Rightarrow>
                                 (case relayMessages K e svc2 messages of
                                    (r', acts) \<Rightarrow>
                                      (r', svc2\<lparr>trace := trace svc2 @
                                             (if length messages = 0 then [Log NoMessages] else []) @
                                             acts\<rparr>))))))"

text \<open>
  The outer loop, one environment per pass for as long as the service is running. An
  error thrown in a pass leaves the loop: the passes after it do not happen.
\<close>

fun run :: "(bytes \<Rightarrow> bytes) \<Rightarrow> env list \<Rightarrow> service \<Rightarrow> error option \<times> service" where
  "run K [] svc = (None, svc)"
| "run K (e # es) svc =
     (case tick K e svc of
        (Some err, svc') \<Rightarrow> (Some err, svc')
      | (None, svc') \<Rightarrow> run K es svc')"

section \<open>Reading a trace\<close>

fun sleeps :: "action list \<Rightarrow> int list" where
  "sleeps [] = []"
| "sleeps (Sleep ms # acts) = ms # sleeps acts"
| "sleeps (_ # acts) = sleeps acts"

fun relays :: "action list \<Rightarrow> (SentMessage \<times> MessageProof option) list" where
  "relays [] = []"
| "relays (RelayMessage m p # acts) = (m, p) # relays acts"
| "relays (_ # acts) = relays acts"

text \<open>
  The path of the cursor along a list of batches: each height it stands on is found
  finalized, the header fetched for that height is the next batch of the list, and the
  cursor moves on by that batch's size.
\<close>

fun jumps :: "env \<Rightarrow> int \<Rightarrow> StateBatchHeader list \<Rightarrow> bool" where
  "jumps e n [] = True"
| "jumps e n (b # bs) =
     (isTransactionFinalized e n = Inr True \<and> getStateBatchHeader e n = Inr (Some b) \<and>
      jumps e (n + batchSize b) bs)"

text \<open>
  The heights of the messages the loop took up, read from its
  \<^verbatim>\<open>Found a message sent during transaction\<close> lines.
\<close>

fun found_heights :: "action list \<Rightarrow> int list" where
  "found_heights [] = []"
| "found_heights (Log (FoundMessage h) # acts) = h # found_heights acts"
| "found_heights (_ # acts) = found_heights acts"

text \<open>
  The relay calls of a trace in short: the height of the message and whether a proof
  went with it, or what \<^verbatim>\<open>insideFraudProofWindow\<close> answers for the batch header of the
  proof.
\<close>

definition relay_summary :: "action list \<Rightarrow> (int \<times> bool) list" where
  "relay_summary acts = map (\<lambda>(m, p). (height m, p \<noteq> None)) (relays acts)"

definition relay_windows :: "env \<Rightarrow> action list \<Rightarrow> (int \<times> (error + bool) option) list" where
  "relay_windows e acts =
     map (\<lambda>(m, p). (height m,
            map_option (\<lambda>p. insideFraudProofWindow e (stateRootBatchHeader p)) p))
       (relays acts)"

section \<open>Example environments\<close>

text \<open>
  Small concrete chains on which the service is run below. The stand-in for Keccak-256 is
  a one-byte checksum; the decoders accept one payload and one calldata shape; a relay
  call without a proof is refused before anything is sent, as the ABI encoder does with
  an \<^verbatim>\<open>undefined\<close> struct.
\<close>

definition toy_keccak :: "bytes \<Rightarrow> bytes" where
  "toy_keccak bs = [word_of_nat (length bs) + sum_list bs]"

definition demo_root :: string where
  "demo_root = ''0x'' @ concat (replicate 32 ''ab'')"

definition demo_batch :: "int \<Rightarrow> int \<Rightarrow> int \<Rightarrow> StateBatchAppended" where
  "demo_batch i prev sz =
     \<lparr> args_batchIndex = i, args_batchRoot = ''0x00'', args_batchSize = sz,
       args_prevTotalElements = prev, args_extraData = ''0x'',
       transactionHash = hexlify [word_of_int sz] \<rparr>"

definition demo_payload :: string where
  "demo_payload = ''0x1234123412341234''"

definition demo_message :: "int \<Rightarrow> SentMessageEvent" where
  "demo_message b = \<lparr> args_message = demo_payload, blockNumber = b \<rparr>"

definition demo_env ::
  "StateBatchAppended list \<Rightarrow> (StateBatchHeader \<Rightarrow> bool) \<Rightarrow> SentMessageEvent list \<Rightarrow> env" where
  "demo_env batches inside messages =
     \<lparr> l1_detectNetwork = Inr (),
       l2_detectNetwork = Inr (),
       stateBatchAppendedLogs = Inr batches,
       getTransaction = (\<lambda>h. Inr h),
       decodeAppendStateBatch =
         (\<lambda>d. case arrayify d of
                 Some [n] \<Rightarrow> Inr (replicate (unat n) demo_root)
               | _ \<Rightarrow> Inl DecodeError),
       insideFraudProofWindow = (\<lambda>b. Inr (inside b)),
       sentMessageLogs = Inr messages,
       decodeRelayMessage =
         (\<lambda>s. if s = demo_payload
               then Inr \<lparr> args_target = ''0x0000000000000000000000000000000000000004'',
                          args_sender = ''0x0000000000000000000000000000000000000005'',
                          args_data = ''0x1234'',
                          args_messageNonce = 0 \<rparr>
               else Inl DecodeError),
       successfulMessages = (\<lambda>h. Inr False),
       eth_getProof =
         (\<lambda>a slots b. Inr (Value \<lparr> accountProof = [''0x01''], storageProof = [[''0x02'']] \<rparr>)),
       rlp_encode = (\<lambda>nodes. []),
       relayMessage = (\<lambda>m p. case p of None \<Rightarrow> Inl TypeError | Some _ \<Rightarrow> Inr ()) \<rparr>"

definition demo_options :: MessageRelayerOptions where
  "demo_options =
     \<lparr> stateCommitmentChainAddress = ''0xF43e2dD2804F1DaF2E3F47b5C735F70a0469234F'',
       l1CrossDomainMessengerAddress = ''0x1e3aa06079fDa5F395E663474ec5f7207A131bD2'',
       l2CrossDomainMessengerAddress = ''0x7ca1542A4E012F2F43Ec19fEca611760Fd7AA627'',
       l2ToL1MessagePasserAddress = ''0x4200000000000000000000000000000000000000'',
       l2ChainStartingHeight = Some 0,
       pollingInterval = Some 0,
       blockOffset = Some 0 \<rparr>"

definition two_batches :: env where
  "two_batches = demo_env [demo_batch 0 0 5, demo_batch 1 5 7] (\<lambda>b. False) []"

definition demo_service :: service where
  "demo_service =
     \<lparr> l2CrossDomainMessenger_address = ''0x7ca1542A4E012F2F43Ec19fEca611760Fd7AA627'',
       l2ToL1MessagePasser_address = ''0x4200000000000000000000000000000000000000'',
       pollingInterval_ms = 5000,
       lastFinalizedTxHeight = 0,
       nextUnfinalizedTxHeight = 0,
       blockOffset_blocks = 0,
       trace = [Log WarnPollingInterval] \<rparr>"

definition demo_scan :: env where
  "demo_scan = demo_env [demo_batch 0 0 3] (\<lambda>b. False) [demo_message 7, demo_message 9, demo_message 11, demo_message 12]"

definition demo_sent :: SentMessage where
  "demo_sent =
     \<lparr> target = ''0x0000000000000000000000000000000000000004'',
       sender = ''0x0000000000000000000000000000000000000005'',
       data = ''0x1234'',
       nonce = 0,
       calldata = demo_payload,
       hash = ''0x20'',
       height = 1 \<rparr>"

definition malformed_env :: env where
  "malformed_env =
     demo_env [demo_batch 0 0 3] (\<lambda>b. False)
       [\<lparr> args_message = ''0xdeadbeef'', blockNumber = 1 \<rparr>, demo_message 2]"

definition soft_failure_env :: env where
  "soft_failure_env =
     (demo_env [demo_batch 0 0 2] (\<lambda>b. False) [demo_message 1])
       \<lparr>eth_getProof := \<lambda>a slots b. Inl RpcError\<rparr>"


definition gate_env :: env where
  "gate_env =
     demo_env [demo_batch 0 0 1, demo_batch 1 1 1] (\<lambda>b. batchIndex b = 1) [demo_message 2]"

definition gate_service :: service where
  "gate_service = demo_service\<lparr>blockOffset_blocks := 1\<rparr>"

definition late_start_env :: env where
  "late_start_env =
     demo_env [demo_batch 0 0 5, demo_batch 1 5 7, demo_batch 2 12 8] (\<lambda>b. batchIndex b = 2)
       [demo_message 13]"

definition late_start_service :: service where
  "late_start_service = demo_service\<lparr>lastFinalizedTxHeight := 2, nextUnfinalizedTxHeight := 2\<rparr>"

text \<open>
  A chain that answers \<^verbatim>\<open>eth_getProof\<close> with \<^verbatim>\<open>undefined\<close> for one address, one slot and
  one block, and fails every other request.
\<close>

definition slot_probe_env :: env where
  "slot_probe_env =
     two_batches
       \<lparr>eth_getProof := \<lambda>a slots b.
          if a = ''0x4200000000000000000000000000000000000000''
             \<and> slots = [hexlify (toy_keccak (toy_keccak
                  ([0x12, 0x34, 0x12, 0x34, 0x12, 0x34, 0x12, 0x34] @
                   [0x7c, 0xa1, 0x54, 0x2A, 0x4E, 0x01, 0x2F, 0x2F, 0x43, 0xEc,
                    0x19, 0xfE, 0xca, 0x61, 0x17, 0x60, 0xFd, 0x7A, 0xA6, 0x27])
                  @ replicate 32 0))]
             \<and> b = 1
          then Inr Undefined else Inl RpcError\<rparr>"

text \<open>
  A chain whose only message sits at the height where the finalized batches end, and the
  same chain once the next batch is finalized.
\<close>

definition boundary_env :: env where
  "boundary_env = demo_env [demo_batch 0 0 2] (\<lambda>b. False) [demo_message 2]"

definition boundary_retry_env :: env where
  "boundary_retry_env =
     demo_env [demo_batch 0 0 2, demo_batch 1 2 1] (\<lambda>b. False) [demo_message 2]"


section \<open>Properties of the hex conversions\<close>

subsection \<open>Round trips\<close>

lemma hexval_hexdigit: "n < 16 \<Longrightarrow> hexval (hexdigit n) = Some n"
  by (auto simp: hexval_def hexdigit_def Let_def)

lemma word_of_nat_nibbles:
  "(word_of_nat (16 * (unat b div 16) + unat b mod 16) :: 8 word) = b"
proof -
  have "16 * (unat b div 16) + unat b mod 16 = unat b"
    by simp
  then have "(word_of_nat (16 * (unat b div 16) + unat b mod 16) :: 8 word) = word_of_nat (unat b)"
    by (rule arg_cong)
  then show ?thesis
    by simp
qed

lemma unhex_hexbyte_Cons:
  "unhex (hexbyte b @ cs) = (case unhex cs of None \<Rightarrow> None | Some bs \<Rightarrow> Some (b # bs))"
proof -
  have "unat b div 16 < 16"
    using unsigned_less [of b, where ?'a = nat] by simp
  then show ?thesis
    by (simp add: hexbyte_def hexval_hexdigit word_of_nat_nibbles split: option.splits)
qed

lemma unhex_hexbody_append:
  "unhex (hexbody bs @ cs) = (case unhex cs of None \<Rightarrow> None | Some bs' \<Rightarrow> Some (bs @ bs'))"
  by (induction bs) (simp_all add: hexbody_def unhex_hexbyte_Cons split: option.splits)

lemma unhex_hexbody: "unhex (hexbody bs) = Some bs"
  using unhex_hexbody_append [of bs "[]"] by simp

lemma arrayify_hexlify: "arrayify (hexlify bs) = Some bs"
  by (simp add: arrayify_def hexlify_def unhex_hexbody)

lemma buffer_from_hex_hexbody: "buffer_from_hex (hexbody bs) = bs"
proof (induction bs)
  case Nil
  then show ?case by (simp add: hexbody_def)
next
  case (Cons b bs)
  have "unat b div 16 < 16"
    using unsigned_less [of b, where ?'a = nat] by simp
  then show ?case
    using Cons by (simp add: hexbody_def hexbyte_def hexval_hexdigit word_of_nat_nibbles)
qed

lemma unhex_zeros_hex: "unhex zeros_hex = Some zeros32"
  by (simp add: zeros_hex_def zeros32_def hexval_def eval_nat_numeral)

section \<open>The trace and the cursor\<close>

lemma sleeps_append: "sleeps (xs @ ys) = sleeps xs @ sleeps ys"
  by (induction xs rule: sleeps.induct) simp_all

lemma relays_append: "relays (xs @ ys) = relays xs @ relays ys"
  by (induction xs rule: relays.induct) simp_all

lemma advance_mono: "advance e n = (r, n', lg) \<Longrightarrow> n \<le> n'"
proof (induction e n arbitrary: r n' lg rule: advance.induct)
  case (1 e n)
  show ?case
  proof (cases "isTransactionFinalized e n")
    case (Inl err)
    with "1.prems" show ?thesis by (simp add: advance.simps [of e n])
  next
    case (Inr fin)
    show ?thesis
    proof (cases fin)
      case False
      with Inr "1.prems" show ?thesis by (simp add: advance.simps [of e n])
    next
      case True
      show ?thesis
      proof (cases "getStateBatchHeader e n")
        case (Inl err)
        with Inr True "1.prems" show ?thesis by (simp add: advance.simps [of e n])
      next
        case hdr: (Inr ob)
        show ?thesis
        proof (cases ob)
          case None
          with Inr True hdr "1.prems" show ?thesis by (simp add: advance.simps [of e n])
        next
          case (Some b)
          obtain r2 n2 lg2 where rec: "advance e (n + batchSize b) = (r2, n2, lg2)"
            by (cases "advance e (n + batchSize b)") auto
          from "1.IH" [OF Inr True hdr Some rec] have "n + batchSize b \<le> n2" .
          moreover have "0 < batchSize b"
            using getStateBatchHeader_Some_horizon hdr Some by blast
          moreover have "n' = n2"
            using Inr True hdr Some rec "1.prems" by (simp add: advance.simps [of e n])
          ultimately show ?thesis by simp
        qed
      qed
    qed
  qed
qed

lemma advance_quiet: "advance e n = (r, n', lg) \<Longrightarrow> sleeps lg = [] \<and> relays lg = []"
proof (induction e n arbitrary: r n' lg rule: advance.induct)
  case (1 e n)
  then show ?case
    by (subst (asm) (2) advance.simps) (auto split: sum.splits if_splits option.splits prod.splits)
qed

lemma getMessageProof_quiet:
  "getMessageProof K e svc m = (x, lg) \<Longrightarrow> sleeps lg = [] \<and> relays lg = []"
  by (auto simp: getMessageProof_def split: sum.splits option.splits if_splits)

lemma relayMessages_sleeps: "relayMessages K e svc ms = (r, acts) \<Longrightarrow> sleeps acts = []"
proof (induction ms arbitrary: r acts)
  case Nil
  then show ?case by simp
next
  case (Cons m ms)
  then show ?case
    by (auto simp: sleeps_append split: sum.splits bool.splits prod.splits if_splits
        dest: getMessageProof_quiet)
qed

lemma tick_frame:
  assumes "tick K e svc = (r, svc')"
  shows "pollingInterval_ms svc' = pollingInterval_ms svc"
    and "blockOffset_blocks svc' = blockOffset_blocks svc"
    and "l2CrossDomainMessenger_address svc' = l2CrossDomainMessenger_address svc"
    and "l2ToL1MessagePasser_address svc' = l2ToL1MessagePasser_address svc"
  using assms
  by (auto simp: tick_def Let_def split: sum.splits if_splits prod.splits option.splits)

lemma tick_cursor:
  assumes "tick K e svc = (r, svc')"
  shows "nextUnfinalizedTxHeight svc \<le> nextUnfinalizedTxHeight svc'"
    and "lastFinalizedTxHeight svc' = lastFinalizedTxHeight svc
       \<or> lastFinalizedTxHeight svc' = nextUnfinalizedTxHeight svc"
  using assms
  by (auto simp: tick_def Let_def split: sum.splits if_splits prod.splits option.splits
      dest: advance_mono)

lemma tick_sleeps:
  assumes "tick K e svc = (r, svc')"
  shows "sleeps (trace svc') = sleeps (trace svc) @ [pollingInterval_ms svc]"
  using assms
  by (auto simp: tick_def Let_def sleeps_append split: sum.splits if_splits prod.splits option.splits
      dest: advance_quiet relayMessages_sleeps)

lemma run_frame:
  "run K es svc = (r, svc') \<Longrightarrow>
     pollingInterval_ms svc' = pollingInterval_ms svc \<and>
     blockOffset_blocks svc' = blockOffset_blocks svc"
proof (induction es arbitrary: svc)
  case Nil
  then show ?case by simp
next
  case (Cons e es)
  obtain r1 svc1 where t: "tick K e svc = (r1, svc1)" by (cases "tick K e svc") auto
  show ?case
  proof (cases r1)
    case None
    with Cons t show ?thesis using tick_frame [OF t] by auto
  next
    case (Some err)
    with Cons.prems t show ?thesis using tick_frame [OF t] by auto
  qed
qed

lemma run_sleeps:
  "run K es svc = (r, svc') \<Longrightarrow>
     \<exists>k. sleeps (trace svc') = sleeps (trace svc) @ replicate k (pollingInterval_ms svc)"
proof (induction es arbitrary: svc)
  case Nil
  then show ?case by simp
next
  case (Cons e es)
  obtain r1 svc1 where t: "tick K e svc = (r1, svc1)" by (cases "tick K e svc") auto
  show ?case
  proof (cases r1)
    case None
    with Cons.prems t have "run K es svc1 = (r, svc')" by simp
    from Cons.IH [OF this] obtain k where
      "sleeps (trace svc') = sleeps (trace svc1) @ replicate k (pollingInterval_ms svc1)" ..
    then have "sleeps (trace svc') = sleeps (trace svc) @ replicate (Suc k) (pollingInterval_ms svc)"
      using tick_sleeps [OF t] tick_frame(1) [OF t] by simp
    then show ?thesis ..
  next
    case (Some err)
    with Cons.prems t have "svc' = svc1" by simp
    then have "sleeps (trace svc') = sleeps (trace svc) @ replicate 1 (pollingInterval_ms svc)"
      using tick_sleeps [OF t] by simp
    then show ?thesis ..
  qed
qed

lemma run_cursor:
  "run K es svc = (r, svc') \<Longrightarrow> lastFinalizedTxHeight svc \<le> nextUnfinalizedTxHeight svc \<Longrightarrow>
     nextUnfinalizedTxHeight svc \<le> nextUnfinalizedTxHeight svc' \<and>
     lastFinalizedTxHeight svc \<le> lastFinalizedTxHeight svc' \<and>
     lastFinalizedTxHeight svc' \<le> nextUnfinalizedTxHeight svc'"
proof (induction es arbitrary: svc)
  case Nil
  then show ?case by simp
next
  case (Cons e es)
  obtain r1 svc1 where t: "tick K e svc = (r1, svc1)" by (cases "tick K e svc") auto
  have step: "nextUnfinalizedTxHeight svc \<le> nextUnfinalizedTxHeight svc1"
    "lastFinalizedTxHeight svc \<le> lastFinalizedTxHeight svc1"
    "lastFinalizedTxHeight svc1 \<le> nextUnfinalizedTxHeight svc1"
    using tick_cursor [OF t] Cons.prems(2) by auto
  show ?case
  proof (cases r1)
    case None
    with Cons.prems t have "run K es svc1 = (r, svc')" by simp
    from Cons.IH [OF this step(3)] step show ?thesis by simp
  next
    case (Some err)
    with Cons.prems t have "svc' = svc1" by simp
    with step show ?thesis by simp
  qed
qed

lemma init_fields:
  assumes "init e opts = Inr svc"
  shows "pollingInterval_ms svc = or_default (pollingInterval opts) 5000"
    and "lastFinalizedTxHeight svc = or_default (l2ChainStartingHeight opts) 0"
    and "nextUnfinalizedTxHeight svc = or_default (l2ChainStartingHeight opts) 0"
    and "blockOffset_blocks svc = or_default (blockOffset opts) 0"
    and "sleeps (trace svc) = []"
  using assms
  by (auto simp: init_def Let_def sanityChecks_def split: sum.splits if_splits)

section \<open>C10: falsy configuration values\<close>

text \<open>
  Claim C10. At initialisation a falsy configured value is replaced by its default: a
  polling interval that is absent or \<open>0\<close> becomes \<open>5000\<close>, a starting height
  or block offset that is absent or \<open>0\<close> is \<open>0\<close>. The polling interval is not
  changed by the loop, so the service never sleeps for \<open>0\<close> milliseconds.
\<close>

theorem falsy_defaults:
  assumes "init e0 opts = Inr svc" and "run K es svc = (r, svc')"
  shows "pollingInterval_ms svc =
           (case pollingInterval opts of None \<Rightarrow> 5000 | Some v \<Rightarrow> if v = 0 then 5000 else v)
       \<and> lastFinalizedTxHeight svc = (case l2ChainStartingHeight opts of None \<Rightarrow> 0 | Some v \<Rightarrow> v)
       \<and> nextUnfinalizedTxHeight svc = (case l2ChainStartingHeight opts of None \<Rightarrow> 0 | Some v \<Rightarrow> v)
       \<and> blockOffset_blocks svc = (case blockOffset opts of None \<Rightarrow> 0 | Some v \<Rightarrow> v)
       \<and> pollingInterval_ms svc' = pollingInterval_ms svc
       \<and> pollingInterval_ms svc' \<noteq> 0
       \<and> 0 \<notin> set (sleeps (trace svc'))"
proof -
  have p: "pollingInterval_ms svc \<noteq> 0"
    using init_fields(1) [OF assms(1)] by (simp add: or_default_def split: option.splits)
  from run_sleeps [OF assms(2)] obtain k where
    "sleeps (trace svc') = sleeps (trace svc) @ replicate k (pollingInterval_ms svc)" ..
  then have "0 \<notin> set (sleeps (trace svc'))"
    using p init_fields(5) [OF assms(1)] by auto
  then show ?thesis
    using p init_fields [OF assms(1)] run_frame [OF assms(2)]
    by (simp add: or_default_def split: option.splits)
qed

theorem falsy_defaults_witness:
  "\<exists>svc r svc'. init two_batches demo_options = Inr svc
      \<and> run toy_keccak [two_batches] svc = (r, svc')
      \<and> pollingInterval demo_options = Some 0
      \<and> pollingInterval_ms svc = 5000
      \<and> pollingInterval_ms svc' = 5000
      \<and> 0 \<notin> set (sleeps (trace svc'))"
proof -
  obtain svc where i: "init two_batches demo_options = Inr svc"
    by (auto simp: init_def sanityChecks_def two_batches_def demo_env_def demo_options_def or_default_def)
  obtain r svc' where r: "run toy_keccak [two_batches] svc = (r, svc')"
    by (cases "run toy_keccak [two_batches] svc") auto
  from falsy_defaults [OF i r] i r show ?thesis
    by (simp add: demo_options_def)
qed

section \<open>C4: the cursor only advances\<close>

lemma init_two_batches: "init two_batches demo_options = Inr demo_service"
  by (simp add: init_def sanityChecks_def two_batches_def demo_env_def demo_options_def
      or_default_def demo_service_def)

lemma run_two_batches_ok: "fst (run toy_keccak [two_batches] demo_service) = None"
  by code_simp

lemma run_two_batches_next:
  "nextUnfinalizedTxHeight (snd (run toy_keccak [two_batches] demo_service)) = 12"
  by code_simp

text \<open>
  Claim C4. Both cursor fields start at the configured starting height. Take any two
  points of the run, the second reached from the first by further passes of the loop
  (the last of which may have thrown): at both points \<open>lastFinalizedTxHeight\<close> is at
  most \<open>nextUnfinalizedTxHeight\<close>, and neither field has decreased from the first point
  to the second.
\<close>

theorem cursor_monotonicity:
  assumes "init e0 opts = Inr svc0"
    and "run K es1 svc0 = (None, svc1)"
    and "run K es2 svc1 = (r, svc2)"
  shows "lastFinalizedTxHeight svc0 = (case l2ChainStartingHeight opts of None \<Rightarrow> 0 | Some v \<Rightarrow> v)
       \<and> nextUnfinalizedTxHeight svc0 = (case l2ChainStartingHeight opts of None \<Rightarrow> 0 | Some v \<Rightarrow> v)
       \<and> lastFinalizedTxHeight svc1 \<le> nextUnfinalizedTxHeight svc1
       \<and> lastFinalizedTxHeight svc2 \<le> nextUnfinalizedTxHeight svc2
       \<and> nextUnfinalizedTxHeight svc1 \<le> nextUnfinalizedTxHeight svc2
       \<and> lastFinalizedTxHeight svc1 \<le> lastFinalizedTxHeight svc2"
proof -
  have start: "lastFinalizedTxHeight svc0 = (case l2ChainStartingHeight opts of None \<Rightarrow> 0 | Some v \<Rightarrow> v)"
    "nextUnfinalizedTxHeight svc0 = (case l2ChainStartingHeight opts of None \<Rightarrow> 0 | Some v \<Rightarrow> v)"
    using init_fields(2,3) [OF assms(1)] by (simp_all add: or_default_def split: option.splits)
  then have "lastFinalizedTxHeight svc0 \<le> nextUnfinalizedTxHeight svc0" by simp
  from run_cursor [OF assms(2) this]
  have one: "lastFinalizedTxHeight svc1 \<le> nextUnfinalizedTxHeight svc1" by simp
  from run_cursor [OF assms(3) one] start one show ?thesis by simp
qed

theorem cursor_monotonicity_witness:
  "\<exists>svc1 r svc2. init two_batches demo_options = Inr demo_service
      \<and> run toy_keccak [two_batches] demo_service = (None, svc1)
      \<and> run toy_keccak [two_batches] svc1 = (r, svc2)
      \<and> lastFinalizedTxHeight demo_service = 0
      \<and> nextUnfinalizedTxHeight svc1 = 12
      \<and> lastFinalizedTxHeight svc1 \<le> nextUnfinalizedTxHeight svc1
      \<and> nextUnfinalizedTxHeight svc1 \<le> nextUnfinalizedTxHeight svc2
      \<and> lastFinalizedTxHeight svc2 \<le> nextUnfinalizedTxHeight svc2"
proof -
  obtain svc1 where a: "run toy_keccak [two_batches] demo_service = (None, svc1)"
    and n: "nextUnfinalizedTxHeight svc1 = 12"
    using run_two_batches_ok run_two_batches_next
    by (cases "run toy_keccak [two_batches] demo_service") auto
  obtain r svc2 where b: "run toy_keccak [two_batches] svc1 = (r, svc2)"
    by (cases "run toy_keccak [two_batches] svc1") auto
  from cursor_monotonicity [OF init_two_batches a b] a b n init_two_batches show ?thesis
    by (simp add: demo_options_def)
qed

section \<open>C5: the cursor jumps batch by batch\<close>

lemma advance_jumps:
  "advance e n = (r, n', lg) \<Longrightarrow>
     \<exists>bs. jumps e n bs \<and> n' = n + sum_list (map batchSize bs)
        \<and> lg = map (\<lambda>b. Log (FoundBatch (batchSize b))) bs
        \<and> (r = None \<longrightarrow> isTransactionFinalized e n' = Inr False)"
proof (induction e n arbitrary: r n' lg rule: advance.induct)
  case (1 e n)
  show ?case
  proof (cases "isTransactionFinalized e n")
    case (Inl err)
    with "1.prems" have "n' = n" "lg = []" "r \<noteq> None" by (auto simp: advance.simps [of e n])
    then have "jumps e n [] \<and> n' = n + sum_list (map batchSize [])
        \<and> lg = map (\<lambda>b. Log (FoundBatch (batchSize b))) []
        \<and> (r = None \<longrightarrow> isTransactionFinalized e n' = Inr False)" by auto
    then show ?thesis by blast
  next
    case (Inr fin)
    show ?thesis
    proof (cases fin)
      case False
      with Inr "1.prems" have "n' = n" "lg = []" by (simp_all add: advance.simps [of e n])
      with Inr False have "jumps e n [] \<and> n' = n + sum_list (map batchSize [])
        \<and> lg = map (\<lambda>b. Log (FoundBatch (batchSize b))) []
        \<and> (r = None \<longrightarrow> isTransactionFinalized e n' = Inr False)" by auto
      then show ?thesis by blast
    next
      case True
      show ?thesis
      proof (cases "getStateBatchHeader e n")
        case (Inl err)
        with Inr True "1.prems" have "n' = n" "lg = []" "r \<noteq> None"
          by (auto simp: advance.simps [of e n])
        then have "jumps e n [] \<and> n' = n + sum_list (map batchSize [])
          \<and> lg = map (\<lambda>b. Log (FoundBatch (batchSize b))) []
          \<and> (r = None \<longrightarrow> isTransactionFinalized e n' = Inr False)" by auto
        then show ?thesis by blast
      next
        case hdr: (Inr ob)
        show ?thesis
        proof (cases ob)
          case None
          with Inr True hdr "1.prems" have "n' = n" "lg = []" "r \<noteq> None"
            by (auto simp: advance.simps [of e n])
          then have "jumps e n [] \<and> n' = n + sum_list (map batchSize [])
            \<and> lg = map (\<lambda>b. Log (FoundBatch (batchSize b))) []
            \<and> (r = None \<longrightarrow> isTransactionFinalized e n' = Inr False)" by auto
          then show ?thesis by blast
        next
          case (Some b)
          obtain r2 n2 lg2 where rec: "advance e (n + batchSize b) = (r2, n2, lg2)"
            by (cases "advance e (n + batchSize b)") auto
          from "1.IH" [OF Inr True hdr Some rec] obtain bs where
            bs: "jumps e (n + batchSize b) bs" "n2 = n + batchSize b + sum_list (map batchSize bs)"
              "lg2 = map (\<lambda>b. Log (FoundBatch (batchSize b))) bs"
              "r2 = None \<longrightarrow> isTransactionFinalized e n2 = Inr False"
            by blast
          have res: "r = r2" "n' = n2" "lg = Log (FoundBatch (batchSize b)) # lg2"
            using Inr True hdr Some rec "1.prems" by (simp_all add: advance.simps [of e n])
          have "jumps e n (b # bs) \<and> n' = n + sum_list (map batchSize (b # bs))
            \<and> lg = map (\<lambda>b. Log (FoundBatch (batchSize b))) (b # bs)
            \<and> (r = None \<longrightarrow> isTransactionFinalized e n' = Inr False)"
            using bs res Inr True hdr Some by simp
          then show ?thesis by blast
        qed
      qed
    qed
  qed
qed

lemma tick_advance:
  assumes "tick K e svc = (r, svc')"
    and "isTransactionFinalized e (nextUnfinalizedTxHeight svc) = Inr True"
  shows "\<exists>r1 lg. advance e (nextUnfinalizedTxHeight svc) = (r1, nextUnfinalizedTxHeight svc', lg)
           \<and> lastFinalizedTxHeight svc' = nextUnfinalizedTxHeight svc
           \<and> (r1 \<noteq> None \<longrightarrow> r = r1)"
  using assms
  by (auto simp: tick_def Let_def split: sum.splits if_splits prod.splits option.splits)

lemma getStateBatchHeader_first:
  assumes "stateBatchAppendedLogs e = Inr events"
    and "i < length events"
    and "covers (events ! i) h"
    and "\<forall>j<i. \<not> covers (events ! j) h"
    and "getTransaction e (transactionHash (events ! i)) = Inr txdata"
    and "decodeAppendStateBatch e txdata = Inr roots"
  shows "getStateBatchHeader e h =
           Inr (Some \<lparr> batchIndex = args_batchIndex (events ! i),
                       batchRoot = args_batchRoot (events ! i),
                       batchSize = args_batchSize (events ! i),
                       prevTotalElements = args_prevTotalElements (events ! i),
                       extraData = args_extraData (events ! i),
                       stateRoots = roots \<rparr>)"
proof -
  have "find (\<lambda>ev. covers ev h) events = Some (events ! i)"
    using assms(2,3,4) by (auto simp: find_Some_iff)
  then show ?thesis
    using assms(1,5,6) by (simp add: getStateBatchHeader_def)
qed

lemma getStateBatchHeader_none:
  assumes "stateBatchAppendedLogs e = Inr events"
    and "\<forall>ev \<in> set events. \<not> covers ev h"
  shows "getStateBatchHeader e h = Inr None"
proof -
  have "find (\<lambda>ev. covers ev h) events = None"
    using assms(2) by (simp add: find_None_iff)
  then show ?thesis
    using assms(1) by (simp add: getStateBatchHeader_def)
qed

text \<open>
  Claim C5. In a pass that finds the cursor's height finalized, the cursor moves along a
  chain of batches: each height it stands on is finalized, it adds exactly the
  \<open>batchSize\<close> of the header fetched for that height, and if the pass does not throw
  it stops at a height that is not finalized. In a pass that finds the cursor's height
  not finalized, the cursor stays. With two batches of sizes 5 and 7 at
  \<open>prevTotalElements\<close> 0 and 5, both outside the fraud-proof window, one pass takes
  the cursor from 0 to 12.
\<close>

theorem cursor_advance:
  "(tick K e svc = (r, svc') \<longrightarrow>
    isTransactionFinalized e (nextUnfinalizedTxHeight svc) = Inr True \<longrightarrow>
      (\<exists>bs. jumps e (nextUnfinalizedTxHeight svc) bs
         \<and> nextUnfinalizedTxHeight svc' = nextUnfinalizedTxHeight svc + sum_list (map batchSize bs)
         \<and> lastFinalizedTxHeight svc' = nextUnfinalizedTxHeight svc
         \<and> (r = None \<longrightarrow> isTransactionFinalized e (nextUnfinalizedTxHeight svc') = Inr False)))
 \<and> (tick K e svc = (r, svc') \<longrightarrow>
    isTransactionFinalized e (nextUnfinalizedTxHeight svc) = Inr False \<longrightarrow>
      nextUnfinalizedTxHeight svc' = nextUnfinalizedTxHeight svc
      \<and> lastFinalizedTxHeight svc' = lastFinalizedTxHeight svc)
 \<and> (stateBatchAppendedLogs e = Inr [b1, b2] \<longrightarrow>
    args_prevTotalElements b1 = 0 \<longrightarrow> args_batchSize b1 = 5 \<longrightarrow>
    args_prevTotalElements b2 = 5 \<longrightarrow> args_batchSize b2 = 7 \<longrightarrow>
    (\<forall>b \<in> {b1, b2}. \<exists>txdata roots.
        getTransaction e (transactionHash b) = Inr txdata \<and>
        decodeAppendStateBatch e txdata = Inr roots) \<longrightarrow>
    (\<forall>hdr. insideFraudProofWindow e hdr = Inr False) \<longrightarrow>
    nextUnfinalizedTxHeight svc = 0 \<longrightarrow>
      nextUnfinalizedTxHeight (snd (tick K e svc)) = 12 \<and>
      lastFinalizedTxHeight (snd (tick K e svc)) = 0)"
proof (intro conjI impI)
  assume t: "tick K e svc = (r, svc')"
    and f: "isTransactionFinalized e (nextUnfinalizedTxHeight svc) = Inr True"
  from tick_advance [OF t f] obtain r1 lg where
    a: "advance e (nextUnfinalizedTxHeight svc) = (r1, nextUnfinalizedTxHeight svc', lg)"
    and l: "lastFinalizedTxHeight svc' = nextUnfinalizedTxHeight svc"
    and r1: "r1 \<noteq> None \<longrightarrow> r = r1"
    by blast
  from advance_jumps [OF a] obtain bs where
    "jumps e (nextUnfinalizedTxHeight svc) bs"
    "nextUnfinalizedTxHeight svc' = nextUnfinalizedTxHeight svc + sum_list (map batchSize bs)"
    "r1 = None \<longrightarrow> isTransactionFinalized e (nextUnfinalizedTxHeight svc') = Inr False"
    by blast
  with l r1 show "\<exists>bs. jumps e (nextUnfinalizedTxHeight svc) bs
         \<and> nextUnfinalizedTxHeight svc' = nextUnfinalizedTxHeight svc + sum_list (map batchSize bs)
         \<and> lastFinalizedTxHeight svc' = nextUnfinalizedTxHeight svc
         \<and> (r = None \<longrightarrow> isTransactionFinalized e (nextUnfinalizedTxHeight svc') = Inr False)"
    by auto
next
  assume t: "tick K e svc = (r, svc')"
    and f: "isTransactionFinalized e (nextUnfinalizedTxHeight svc) = Inr False"
  then have "svc' = svc\<lparr>trace := trace svc @
      [Sleep (pollingInterval_ms svc), Log Checking, Log NoneFinalized]\<rparr>"
    by (simp add: tick_def Let_def)
  then show "nextUnfinalizedTxHeight svc' = nextUnfinalizedTxHeight svc"
    "lastFinalizedTxHeight svc' = lastFinalizedTxHeight svc"
    by simp_all
next
  assume logs: "stateBatchAppendedLogs e = Inr [b1, b2]"
    and shape: "args_prevTotalElements b1 = 0" "args_batchSize b1 = 5"
      "args_prevTotalElements b2 = 5" "args_batchSize b2 = 7"
    and dec: "\<forall>b \<in> {b1, b2}. \<exists>txdata roots.
        getTransaction e (transactionHash b) = Inr txdata \<and>
        decodeAppendStateBatch e txdata = Inr roots"
    and fin: "\<forall>hdr. insideFraudProofWindow e hdr = Inr False"
    and start: "nextUnfinalizedTxHeight svc = 0"
  from dec obtain d1 roots1 d2 roots2 where
    d1: "getTransaction e (transactionHash b1) = Inr d1" "decodeAppendStateBatch e d1 = Inr roots1"
    and d2: "getTransaction e (transactionHash b2) = Inr d2" "decodeAppendStateBatch e d2 = Inr roots2"
    by auto
  obtain h1 where h1: "getStateBatchHeader e 0 = Inr (Some h1)" "batchSize h1 = 5"
    using getStateBatchHeader_first [OF logs, of 0 0 d1 roots1] shape d1
    by (simp add: covers_def)
  obtain h2 where h2: "getStateBatchHeader e 5 = Inr (Some h2)" "batchSize h2 = 7"
    using getStateBatchHeader_first [OF logs, of 1 5 d2 roots2] shape d2
    by (simp add: covers_def)
  have h3: "getStateBatchHeader e 12 = Inr None"
    using getStateBatchHeader_none [OF logs, of 12] shape by (simp add: covers_def)
  have f: "isTransactionFinalized e 0 = Inr True" "isTransactionFinalized e 5 = Inr True"
    "isTransactionFinalized e 12 = Inr False"
    using h1 h2 h3 fin by (simp_all add: isTransactionFinalized_def)
  have "advance e 12 = (None, 12, [])"
    using f by (simp add: advance.simps [of e 12])
  then have "advance e 5 = (None, 12, [Log (FoundBatch 7)])"
    using f h2 by (simp add: advance.simps [of e 5])
  then have a: "advance e 0 = (None, 12, [Log (FoundBatch 5), Log (FoundBatch 7)])"
    using f h1 by (simp add: advance.simps [of e 0])
  show "nextUnfinalizedTxHeight (snd (tick K e svc)) = 12"
    using a f start
    by (simp add: tick_def Let_def split: sum.splits prod.splits)
  show "lastFinalizedTxHeight (snd (tick K e svc)) = 0"
    using a f start
    by (simp add: tick_def Let_def split: sum.splits prod.splits)
qed

lemma two_batches_simps:
  "stateBatchAppendedLogs two_batches = Inr [demo_batch 0 0 5, demo_batch 1 5 7]"
  "getTransaction two_batches h = Inr h"
  "decodeAppendStateBatch two_batches (hexlify [n]) = Inr (replicate (unat n) demo_root)"
  "insideFraudProofWindow two_batches hdr = Inr False"
  by (simp_all add: two_batches_def demo_env_def arrayify_hexlify)

theorem cursor_advance_witness:
  "isTransactionFinalized two_batches (nextUnfinalizedTxHeight demo_service) = Inr True
   \<and> nextUnfinalizedTxHeight demo_service = 0
   \<and> nextUnfinalizedTxHeight (snd (tick toy_keccak two_batches demo_service)) = 12
   \<and> lastFinalizedTxHeight (snd (tick toy_keccak two_batches demo_service)) = 0
   \<and> (\<exists>bs. jumps two_batches 0 bs \<and> sum_list (map batchSize bs) = 12)"
proof -
  have s: "nextUnfinalizedTxHeight demo_service = 0"
    by (simp add: demo_service_def)
  have h: "getStateBatchHeader two_batches 0 =
      Inr (Some \<lparr> batchIndex = 0, batchRoot = ''0x00'', batchSize = 5, prevTotalElements = 0,
                  extraData = ''0x'', stateRoots = replicate 5 demo_root \<rparr>)"
    using getStateBatchHeader_first [OF two_batches_simps(1), of 0 0 "hexlify [5]" "replicate 5 demo_root"]
    by (simp add: two_batches_simps covers_def demo_batch_def)
  have f: "isTransactionFinalized two_batches 0 = Inr True"
    by (simp add: isTransactionFinalized_def h two_batches_simps)
  have d: "\<forall>b \<in> {demo_batch 0 0 5, demo_batch 1 5 7}. \<exists>txdata roots.
        getTransaction two_batches (transactionHash b) = Inr txdata \<and>
        decodeAppendStateBatch two_batches txdata = Inr roots"
    by (simp add: two_batches_simps demo_batch_def)
  have t: "tick toy_keccak two_batches demo_service =
      (fst (tick toy_keccak two_batches demo_service), snd (tick toy_keccak two_batches demo_service))"
    by simp
  note inst = cursor_advance [of toy_keccak two_batches demo_service
      "fst (tick toy_keccak two_batches demo_service)"
      "snd (tick toy_keccak two_batches demo_service)"
      "demo_batch 0 0 5" "demo_batch 1 5 7"]
  from inst [THEN conjunct1] t f s
  obtain bs where "jumps two_batches 0 bs"
    "nextUnfinalizedTxHeight (snd (tick toy_keccak two_batches demo_service)) = sum_list (map batchSize bs)"
    by auto
  moreover from inst [THEN conjunct2, THEN conjunct2] s d two_batches_simps(1,4)
  have "nextUnfinalizedTxHeight (snd (tick toy_keccak two_batches demo_service)) = 12
      \<and> lastFinalizedTxHeight (snd (tick toy_keccak two_batches demo_service)) = 0"
    by (simp add: demo_batch_def)
  ultimately show ?thesis
    using s f by auto
qed

section \<open>C6: the batch lookup\<close>

text \<open>
  Claim C6. \<open>getStateBatchHeader\<close> reads all \<^verbatim>\<open>StateBatchAppended\<close> events. When no
  event's range \<open>[prevTotalElements, prevTotalElements + batchSize)\<close> holds the height
  it returns none. Otherwise it takes the first event whose range holds the height,
  decodes the state roots from the calldata of that event's transaction, and returns
  the header with the event's five fields and those roots.
\<close>

theorem getStateBatchHeader_lookup:
  assumes "stateBatchAppendedLogs e = Inr events"
  shows "((\<forall>ev \<in> set events.
             \<not> (args_prevTotalElements ev \<le> h \<and> h < args_prevTotalElements ev + args_batchSize ev))
          \<longrightarrow> getStateBatchHeader e h = Inr None)
       \<and> (i < length events
            \<and> args_prevTotalElements (events ! i) \<le> h
            \<and> h < args_prevTotalElements (events ! i) + args_batchSize (events ! i)
            \<and> (\<forall>j<i. \<not> (args_prevTotalElements (events ! j) \<le> h
                         \<and> h < args_prevTotalElements (events ! j) + args_batchSize (events ! j)))
            \<and> getTransaction e (transactionHash (events ! i)) = Inr txdata
            \<and> decodeAppendStateBatch e txdata = Inr roots
          \<longrightarrow> getStateBatchHeader e h =
                Inr (Some \<lparr> batchIndex = args_batchIndex (events ! i),
                            batchRoot = args_batchRoot (events ! i),
                            batchSize = args_batchSize (events ! i),
                            prevTotalElements = args_prevTotalElements (events ! i),
                            extraData = args_extraData (events ! i),
                            stateRoots = roots \<rparr>))"
proof (intro conjI impI)
  assume "\<forall>ev \<in> set events.
      \<not> (args_prevTotalElements ev \<le> h \<and> h < args_prevTotalElements ev + args_batchSize ev)"
  then have "\<forall>ev \<in> set events. \<not> covers ev h"
    by (simp add: covers_def)
  with assms show "getStateBatchHeader e h = Inr None"
    by (rule getStateBatchHeader_none)
next
  assume a: "i < length events
            \<and> args_prevTotalElements (events ! i) \<le> h
            \<and> h < args_prevTotalElements (events ! i) + args_batchSize (events ! i)
            \<and> (\<forall>j<i. \<not> (args_prevTotalElements (events ! j) \<le> h
                         \<and> h < args_prevTotalElements (events ! j) + args_batchSize (events ! j)))
            \<and> getTransaction e (transactionHash (events ! i)) = Inr txdata
            \<and> decodeAppendStateBatch e txdata = Inr roots"
  then have c: "covers (events ! i) h" "\<forall>j<i. \<not> covers (events ! j) h"
    by (simp_all add: covers_def)
  from a have b: "i < length events" "getTransaction e (transactionHash (events ! i)) = Inr txdata"
    "decodeAppendStateBatch e txdata = Inr roots"
    by simp_all
  show "getStateBatchHeader e h =
                Inr (Some \<lparr> batchIndex = args_batchIndex (events ! i),
                            batchRoot = args_batchRoot (events ! i),
                            batchSize = args_batchSize (events ! i),
                            prevTotalElements = args_prevTotalElements (events ! i),
                            extraData = args_extraData (events ! i),
                            stateRoots = roots \<rparr>)"
    by (rule getStateBatchHeader_first [OF assms b(1) c b(2,3)])
qed

theorem getStateBatchHeader_lookup_witness:
  "stateBatchAppendedLogs two_batches = Inr [demo_batch 0 0 5, demo_batch 1 5 7]
   \<and> getStateBatchHeader two_batches 12 = Inr None
   \<and> getStateBatchHeader two_batches 6 =
       Inr (Some \<lparr> batchIndex = 1, batchRoot = ''0x00'', batchSize = 7, prevTotalElements = 5,
                   extraData = ''0x'', stateRoots = replicate 7 demo_root \<rparr>)"
  using getStateBatchHeader_lookup [OF two_batches_simps(1), of 12 1 "hexlify [7]" "replicate 7 demo_root"]
    getStateBatchHeader_lookup [OF two_batches_simps(1), of 6 1 "hexlify [7]" "replicate 7 demo_root"]
  by (simp add: two_batches_simps demo_batch_def less_Suc_eq)

section \<open>C7: scanning for sent messages\<close>

lemma map_throwing_all:
  "\<forall>x \<in> set xs. f x = Inr (g x) \<Longrightarrow> map_throwing f xs = Inr (map g xs)"
  by (induction xs) simp_all

lemma keccak256_arrayify:
  "arrayify s = Some bs \<Longrightarrow> keccak256 K s = Inr (hexlify (K bs))"
  by (simp add: keccak256_def)

text \<open>
  Claim C7. \<open>getSentMessages\<close> takes the \<^verbatim>\<open>SentMessage\<close> logs of the blocks from
  \<open>startHeight + blockOffset\<close> to \<open>endHeight + blockOffset\<close>. When each of them decodes
  as \<^verbatim>\<open>relayMessage\<close> calldata, it returns one message per log, in the order of the
  logs: target, sender, data and nonce are the decoded fields, the calldata is the
  payload itself, the hash is Keccak-256 of the payload's bytes, and the height is the
  block number less the block offset.
\<close>

theorem getSentMessages_scan:
  assumes "sentMessageLogs e = Inr events"
    and "\<forall>ev \<in> set events.
           startHeight + blockOffset_blocks svc \<le> blockNumber ev \<and>
           blockNumber ev \<le> endHeight + blockOffset_blocks svc \<longrightarrow>
             decodeRelayMessage e (args_message ev) = Inr (decoded ev) \<and>
             arrayify (args_message ev) = Some (payload ev)"
  shows "getSentMessages K e svc startHeight endHeight =
           Inr (map (\<lambda>ev. \<lparr> target = args_target (decoded ev),
                             sender = args_sender (decoded ev),
                             data = args_data (decoded ev),
                             nonce = args_messageNonce (decoded ev),
                             calldata = args_message ev,
                             hash = hexlify (K (payload ev)),
                             height = blockNumber ev - blockOffset_blocks svc \<rparr>)
                    (filter (\<lambda>ev. startHeight + blockOffset_blocks svc \<le> blockNumber ev \<and>
                                  blockNumber ev \<le> endHeight + blockOffset_blocks svc) events))"
proof -
  let ?inrange = "\<lambda>ev. startHeight + blockOffset_blocks svc \<le> blockNumber ev \<and>
                        blockNumber ev \<le> endHeight + blockOffset_blocks svc"
  have q: "queryFilter e (startHeight + blockOffset_blocks svc) (endHeight + blockOffset_blocks svc)
      = Inr (filter ?inrange events)"
    using assms(1) by (simp add: queryFilter_def)
  have "\<forall>ev \<in> set (filter ?inrange events).
      toSentMessage K e (blockOffset_blocks svc) ev =
        Inr \<lparr> target = args_target (decoded ev),
              sender = args_sender (decoded ev),
              data = args_data (decoded ev),
              nonce = args_messageNonce (decoded ev),
              calldata = args_message ev,
              hash = hexlify (K (payload ev)),
              height = blockNumber ev - blockOffset_blocks svc \<rparr>"
    using assms(2) by (auto simp: toSentMessage_def keccak256_arrayify)
  from map_throwing_all [OF this] q show ?thesis
    by (simp add: getSentMessages_def)
qed

lemma arrayify_demo_payload:
  "arrayify demo_payload = Some [0x12, 0x34, 0x12, 0x34, 0x12, 0x34, 0x12, 0x34]"
  by (simp add: arrayify_def demo_payload_def hexval_def)

theorem getSentMessages_scan_witness:
  "sentMessageLogs demo_scan = Inr [demo_message 7, demo_message 9, demo_message 11, demo_message 12]
   \<and> getSentMessages toy_keccak demo_scan (demo_service\<lparr>blockOffset_blocks := 8\<rparr>) 0 3 =
       Inr (map (\<lambda>b. \<lparr> target = ''0x0000000000000000000000000000000000000004'',
                        sender = ''0x0000000000000000000000000000000000000005'',
                        data = ''0x1234'',
                        nonce = 0,
                        calldata = ''0x1234123412341234'',
                        hash = hexlify (toy_keccak [0x12, 0x34, 0x12, 0x34, 0x12, 0x34, 0x12, 0x34]),
                        height = b \<rparr>) [1, 3])"
proof -
  have l: "sentMessageLogs demo_scan = Inr [demo_message 7, demo_message 9, demo_message 11, demo_message 12]"
    by (simp add: demo_scan_def demo_env_def)
  have d: "\<forall>ev \<in> set [demo_message 7, demo_message 9, demo_message 11, demo_message 12].
           0 + blockOffset_blocks (demo_service\<lparr>blockOffset_blocks := 8\<rparr>) \<le> blockNumber ev \<and>
           blockNumber ev \<le> 3 + blockOffset_blocks (demo_service\<lparr>blockOffset_blocks := 8\<rparr>) \<longrightarrow>
             decodeRelayMessage demo_scan (args_message ev) =
               Inr ((\<lambda>ev. \<lparr> args_target = ''0x0000000000000000000000000000000000000004'',
                          args_sender = ''0x0000000000000000000000000000000000000005'',
                          args_data = ''0x1234'',
                          args_messageNonce = 0 \<rparr>) ev) \<and>
             arrayify (args_message ev) =
               Some ((\<lambda>ev. [0x12, 0x34, 0x12, 0x34, 0x12, 0x34, 0x12, 0x34]) ev)"
    by (simp add: demo_scan_def demo_env_def demo_message_def arrayify_demo_payload)
  from getSentMessages_scan [OF l d, of toy_keccak] l show ?thesis
    by (simp add: demo_message_def demo_payload_def)
qed

section \<open>C3: the storage slot\<close>

lemma unhex_append:
  "unhex xs = Some a \<Longrightarrow> unhex ys = Some b \<Longrightarrow> unhex (xs @ ys) = Some (a @ b)"
  by (induction xs arbitrary: a rule: unhex.induct) (auto split: option.splits)

lemma arrayify_append:
  assumes "arrayify s = Some a" and "arrayify t = Some b"
  shows "arrayify (s @ drop 2 t) = Some (a @ b)"
proof -
  from assms have s: "take 2 s = ''0x''" "unhex (drop 2 s) = Some a"
    and t: "unhex (drop 2 t) = Some b"
    by (auto simp: arrayify_def split: if_splits)
  from s(1) have "2 \<le> length s"
    by (cases s; cases "tl s") auto
  then have "take 2 (s @ drop 2 t) = take 2 s" "drop 2 (s @ drop 2 t) = drop 2 s @ drop 2 t"
    by simp_all
  with s t show ?thesis
    by (simp add: arrayify_def unhex_append)
qed

lemma arrayify_hexlify_zeros: "arrayify (hexlify bs @ zeros_hex) = Some (bs @ zeros32)"
  by (simp add: arrayify_def hexlify_def unhex_hexbody_append unhex_zeros_hex)

lemma messageSlot_bytes:
  assumes "arrayify (calldata m) = Some cd"
    and "arrayify (l2CrossDomainMessenger_address svc) = Some addr"
  shows "messageSlot K svc m = Inr (hexlify (K (K (cd @ addr) @ zeros32)))"
  using arrayify_append [OF assms]
  by (simp add: messageSlot_def keccak256_def arrayify_hexlify_zeros)

text \<open>
  Claim C3. For a message whose calldata is the hex string of the bytes \<open>cd\<close>, and a
  messenger address that is the hex string of the bytes \<open>addr\<close>, the slot computed by
  \<open>getMessageProof\<close> is the hex string of
  \<open>keccak256(keccak256(cd || addr) || 32 zero bytes)\<close>, and \<open>getMessageProof\<close> asks
  \<^verbatim>\<open>eth_getProof\<close> for exactly that slot, at the message passer's address and the
  message's block: its result is the same in an environment where every other
  \<^verbatim>\<open>eth_getProof\<close> request fails, and the answer to that one request decides it. If
  the request fails, that error is logged and no proof is returned; if it answers
  \<^verbatim>\<open>undefined\<close>, \<^verbatim>\<open>No proof found\<close> is logged and no proof is returned; if it answers
  with a proof object and a message proof is returned, the two trie witnesses of the
  message proof are the encodings of that answer's account proof and first storage proof.
\<close>

theorem storage_slot_law:
  assumes "arrayify (calldata m) = Some cd"
    and "arrayify (l2CrossDomainMessenger_address svc) = Some addr"
  shows "messageSlot K svc m = Inr (hexlify (K (K (cd @ addr) @ replicate 32 0)))
       \<and> getMessageProof K e svc m =
           getMessageProof K
             (e\<lparr>eth_getProof := \<lambda>a slots b.
                  if a = l2ToL1MessagePasser_address svc
                     \<and> slots = [hexlify (K (K (cd @ addr) @ replicate 32 0))]
                     \<and> b = height m + blockOffset_blocks svc
                  then eth_getProof e a slots b else Inl RpcError\<rparr>) svc m
       \<and> (eth_getProof e (l2ToL1MessagePasser_address svc)
             [hexlify (K (K (cd @ addr) @ replicate 32 0))]
             (height m + blockOffset_blocks svc) = Inl err
           \<longrightarrow> getMessageProof K e svc m = (Inr None, [Log (LoggedError err)]))
       \<and> (eth_getProof e (l2ToL1MessagePasser_address svc)
             [hexlify (K (K (cd @ addr) @ replicate 32 0))]
             (height m + blockOffset_blocks svc) = Inr Undefined
           \<longrightarrow> getMessageProof K e svc m = (Inr None, [Log (LoggedError NoProofFound)]))
       \<and> (eth_getProof e (l2ToL1MessagePasser_address svc)
             [hexlify (K (K (cd @ addr) @ replicate 32 0))]
             (height m + blockOffset_blocks svc) = Inr (Value answer)
           \<longrightarrow> getMessageProof K e svc m = (Inr (Some p), logged)
           \<longrightarrow> stateTrieWitness p = rlp_encode e (accountProof answer)
               \<and> storageTrieWitness p = rlp_encode e (hd (storageProof answer)))"
proof -
  let ?slot = "hexlify (K (K (cd @ addr) @ replicate 32 0))"
  have slot: "messageSlot K svc m = Inr ?slot"
    using messageSlot_bytes [OF assms] by (simp add: zeros32_def)
  let ?e = "e\<lparr>eth_getProof := \<lambda>a slots b.
                  if a = l2ToL1MessagePasser_address svc
                     \<and> slots = [?slot]
                     \<and> b = height m + blockOffset_blocks svc
                  then eth_getProof e a slots b else Inl RpcError\<rparr>"
  have hdr: "getStateBatchHeader ?e = getStateBatchHeader e"
    by (intro ext) (simp add: getStateBatchHeader_def cong: sum.case_cong option.case_cong)
  have asm: "assembleProof K ?e = assembleProof K e"
    by (intro ext)
      (simp add: assembleProof_def Let_def cong: sum.case_cong list.case_cong resolved.case_cong)
  have same: "getMessageProof K e svc m = getMessageProof K ?e svc m"
    unfolding getMessageProof_def hdr asm slot by simp
  have failed: "getMessageProof K e svc m = (Inr None, [Log (LoggedError err)])"
    if "eth_getProof e (l2ToL1MessagePasser_address svc) [?slot]
          (height m + blockOffset_blocks svc) = Inl err"
    using that by (simp add: getMessageProof_def slot)
  have none: "getMessageProof K e svc m = (Inr None, [Log (LoggedError NoProofFound)])"
    if "eth_getProof e (l2ToL1MessagePasser_address svc) [?slot]
          (height m + blockOffset_blocks svc) = Inr Undefined"
    using that by (simp add: getMessageProof_def slot)
  have built: "stateTrieWitness p = rlp_encode e (accountProof answer)
               \<and> storageTrieWitness p = rlp_encode e (hd (storageProof answer))"
    if "eth_getProof e (l2ToL1MessagePasser_address svc) [?slot]
          (height m + blockOffset_blocks svc) = Inr (Value answer)"
      and "getMessageProof K e svc m = (Inr (Some p), logged)"
    using that
    by (auto simp: getMessageProof_def slot assembleProof_def Let_def
          split: sum.splits option.splits list.splits)
  from slot same failed none built show ?thesis
    by blast
qed

lemma arrayify_demo_address:
  "arrayify (l2CrossDomainMessenger_address demo_service) =
     Some [0x7c, 0xa1, 0x54, 0x2A, 0x4E, 0x01, 0x2F, 0x2F, 0x43, 0xEc,
           0x19, 0xfE, 0xca, 0x61, 0x17, 0x60, 0xFd, 0x7A, 0xA6, 0x27]"
  by (simp add: arrayify_def demo_service_def hexval_def)

lemma demo_proof_built:
  "(case getMessageProof toy_keccak two_batches demo_service demo_sent of
      (Inr (Some p), logged) \<Rightarrow> logged = []
    | _ \<Rightarrow> False)"
  by code_simp

theorem storage_slot_law_witness:
  "arrayify (calldata demo_sent) = Some [0x12, 0x34, 0x12, 0x34, 0x12, 0x34, 0x12, 0x34]
   \<and> arrayify (l2CrossDomainMessenger_address demo_service) =
       Some [0x7c, 0xa1, 0x54, 0x2A, 0x4E, 0x01, 0x2F, 0x2F, 0x43, 0xEc,
             0x19, 0xfE, 0xca, 0x61, 0x17, 0x60, 0xFd, 0x7A, 0xA6, 0x27]
   \<and> messageSlot toy_keccak demo_service demo_sent =
       Inr (hexlify (toy_keccak (toy_keccak
              ([0x12, 0x34, 0x12, 0x34, 0x12, 0x34, 0x12, 0x34] @
               [0x7c, 0xa1, 0x54, 0x2A, 0x4E, 0x01, 0x2F, 0x2F, 0x43, 0xEc,
                0x19, 0xfE, 0xca, 0x61, 0x17, 0x60, 0xFd, 0x7A, 0xA6, 0x27])
              @ replicate 32 0)))
   \<and> getMessageProof toy_keccak soft_failure_env demo_service demo_sent
       = (Inr None, [Log (LoggedError RpcError)])
   \<and> getMessageProof toy_keccak slot_probe_env demo_service demo_sent
       = (Inr None, [Log (LoggedError NoProofFound)])
   \<and> (\<exists>p. getMessageProof toy_keccak two_batches demo_service demo_sent = (Inr (Some p), [])
        \<and> stateTrieWitness p = rlp_encode two_batches [''0x01'']
        \<and> storageTrieWitness p = rlp_encode two_batches [''0x02''])"
proof -
  let ?cd = "[0x12, 0x34, 0x12, 0x34, 0x12, 0x34, 0x12, 0x34] :: bytes"
  let ?addr = "[0x7c, 0xa1, 0x54, 0x2A, 0x4E, 0x01, 0x2F, 0x2F, 0x43, 0xEc,
                0x19, 0xfE, 0xca, 0x61, 0x17, 0x60, 0xFd, 0x7A, 0xA6, 0x27] :: bytes"
  let ?slot = "hexlify (toy_keccak (toy_keccak (?cd @ ?addr) @ replicate 32 0))"
  have c: "arrayify (calldata demo_sent) = Some ?cd"
    by (simp add: demo_sent_def arrayify_demo_payload)
  note law = storage_slot_law [OF c arrayify_demo_address, of toy_keccak]
  have q: "l2ToL1MessagePasser_address demo_service = ''0x4200000000000000000000000000000000000000''"
    "height demo_sent + blockOffset_blocks demo_service = 1"
    by (simp_all add: demo_service_def demo_sent_def)
  have f: "eth_getProof soft_failure_env (l2ToL1MessagePasser_address demo_service) [?slot]
      (height demo_sent + blockOffset_blocks demo_service) = Inl RpcError"
    by (simp add: soft_failure_env_def)
  have u: "eth_getProof slot_probe_env (l2ToL1MessagePasser_address demo_service) [?slot]
      (height demo_sent + blockOffset_blocks demo_service) = Inr Undefined"
    unfolding q by (simp add: slot_probe_env_def)
  have v: "eth_getProof two_batches (l2ToL1MessagePasser_address demo_service) [?slot]
      (height demo_sent + blockOffset_blocks demo_service) =
        Inr (Value \<lparr> accountProof = [''0x01''], storageProof = [[''0x02'']] \<rparr>)"
    by (simp add: two_batches_def demo_env_def)
  from demo_proof_built obtain p where
    p: "getMessageProof toy_keccak two_batches demo_service demo_sent = (Inr (Some p), [])"
    by (auto split: prod.splits sum.splits option.splits)
  have s: "messageSlot toy_keccak demo_service demo_sent = Inr ?slot"
    using law [of two_batches] by (rule conjunct1)
  have a: "getMessageProof toy_keccak soft_failure_env demo_service demo_sent
       = (Inr None, [Log (LoggedError RpcError)])"
    using law [of soft_failure_env RpcError] f by blast
  have b: "getMessageProof toy_keccak slot_probe_env demo_service demo_sent
       = (Inr None, [Log (LoggedError NoProofFound)])"
    using law [of slot_probe_env] u by blast
  have w: "stateTrieWitness p = rlp_encode two_batches [''0x01'']
        \<and> storageTrieWitness p = rlp_encode two_batches [''0x02'']"
    using law [of two_batches _ "\<lparr> accountProof = [''0x01''], storageProof = [[''0x02'']] \<rparr>" p "[]"] v p
    by simp
  from c arrayify_demo_address s a b p w show ?thesis
    by blast
qed

section \<open>C2: the state-root tree and its inclusion proof\<close>

subsection \<open>The padded size\<close>

lemma ceil_log2_small: "n \<le> 1 \<Longrightarrow> ceil_log2 n = 0"
  by (subst ceil_log2.simps) simp

lemma ceil_log2_large: "1 < n \<Longrightarrow> ceil_log2 n = Suc (ceil_log2 ((n + 1) div 2))"
  by (subst ceil_log2.simps) simp

lemma ceil_log2_bounds:
  "1 \<le> n \<Longrightarrow> n \<le> 2 ^ ceil_log2 n \<and> (1 < n \<longrightarrow> 2 ^ (ceil_log2 n - 1) < n)"
proof (induction n rule: ceil_log2.induct)
  case (1 n)
  show ?case
  proof (cases "n \<le> 1")
    case True
    with "1.prems" show ?thesis by (simp add: ceil_log2_small)
  next
    case False
    let ?h = "(n + 1) div 2"
    have h: "1 \<le> ?h" using False by simp
    from "1.IH" [OF False h]
    have ih: "?h \<le> 2 ^ ceil_log2 ?h" "1 < ?h \<longrightarrow> 2 ^ (ceil_log2 ?h - 1) < ?h" by simp_all
    have c: "ceil_log2 n = Suc (ceil_log2 ?h)"
      using False by (intro ceil_log2_large) simp
    have up: "n \<le> 2 ^ ceil_log2 n"
      using ih(1) c by simp
    have low: "2 ^ (ceil_log2 n - 1) < n"
    proof (cases "1 < ?h")
      case True
      then have "2 ^ (ceil_log2 ?h - 1) < ?h" using ih(2) by simp
      moreover have "0 < ceil_log2 ?h"
        using ceil_log2_large [OF True] by simp
      ultimately have "2 ^ ceil_log2 ?h < 2 * ?h"
        by (cases "ceil_log2 ?h") simp_all
      moreover have "(2::nat) ^ ceil_log2 ?h mod 2 = 0"
        using \<open>0 < ceil_log2 ?h\<close> by (cases "ceil_log2 ?h") simp_all
      ultimately have "2 ^ ceil_log2 ?h < n"
        by presburger
      then show ?thesis using c by simp
    next
      case False
      then have "?h = 1" using h by simp
      then have "ceil_log2 ?h = 0" by (intro ceil_log2_small) simp
      with c \<open>\<not> n \<le> 1\<close> show ?thesis by simp
    qed
    from up low show ?thesis by simp
  qed
qed

lemma ceil_log2_real: "1 \<le> n \<Longrightarrow> int (ceil_log2 n) = \<lceil>log 2 (real n)\<rceil>"
proof (cases "n = 1")
  case True
  then show ?thesis by (simp add: ceil_log2_small)
next
  case False
  assume "1 \<le> n"
  with False have n: "1 < n" by simp
  then have pos: "0 < ceil_log2 n"
    using ceil_log2_large [of n] by simp
  from ceil_log2_bounds [of n] n
  have "2 ^ (ceil_log2 n - 1) < n" "n \<le> 2 ^ (ceil_log2 n - 1 + 1)"
    using pos by simp_all
  from ceiling_log_nat_eq_if [OF this] pos show ?thesis
    by simp
qed

lemma padded_length_pow2: "1 \<le> n \<Longrightarrow> padded_length n = 2 ^ ceil_log2 n"
  by (simp add: padded_length_def)

subsection \<open>Hashing the leaves\<close>

lemma hash_buffer_eq: "hash_buffer K = K"
  by (rule ext) (simp add: hash_buffer_def keccak256_buffer_def hexlify_def buffer_from_hex_hexbody)

lemma hash_string_arrayify: "arrayify s = Some bs \<Longrightarrow> hash_string K s = Inr (K bs)"
  by (simp add: hash_string_def keccak256_def hexlify_def buffer_from_hex_hexbody)

lemma arrayify_zero_element: "arrayify (''0x'' @ zeros_hex) = Some zeros32"
  by (simp add: arrayify_def unhex_zeros_hex)

lemma hash_string_zero_element: "hash_string K (''0x'' @ zeros_hex) = Inr (K zeros32)"
  using arrayify_zero_element by (rule hash_string_arrayify)

lemma map_throwing_nth:
  "\<forall>i < length xs. f (xs ! i) = Inr (g i) \<Longrightarrow> map_throwing f xs = Inr (map g [0..<length xs])"
proof (induction xs arbitrary: g)
  case Nil
  then show ?case by simp
next
  case (Cons x xs)
  have "\<forall>i < length xs. f (xs ! i) = Inr ((g \<circ> Suc) i)"
    using Cons.prems by auto
  from Cons.IH [OF this] have "map_throwing f xs = Inr (map (g \<circ> Suc) [0..<length xs])" .
  moreover have "f x = Inr (g 0)" using Cons.prems by auto
  moreover have "map g [0..<length (x # xs)] = g 0 # map (g \<circ> Suc) [0..<length xs]"
    by (simp add: upt_rec [of 0] map_Suc_upt [symmetric] del: upt_Suc)
  ultimately show ?case by simp
qed

lemma leaves_of_elements:
  assumes "length roots = length hexroots"
    and "\<forall>i < length roots. arrayify (hexroots ! i) = Some (roots ! i)"
  shows "map_throwing (hash_string K) (elements hexroots) =
           Inr (map (\<lambda>i. if i < length roots then K (roots ! i) else K zeros32)
                  [0..<padded_length (length roots)])"
proof -
  have len: "length (elements hexroots) = padded_length (length roots)"
    using assms(1) by (simp add: elements_def)
  have "\<forall>i < length (elements hexroots).
      hash_string K (elements hexroots ! i) =
        Inr ((\<lambda>i. if i < length roots then K (roots ! i) else K zeros32) i)"
    using assms hash_string_zero_element [of K]
    by (auto simp: elements_def hash_string_arrayify)
  from map_throwing_nth [OF this] len show ?thesis by simp
qed

subsection \<open>The tree over a power of two of leaves\<close>

lemma hash_pairs_nth:
  "2 * j + 1 < length nodes \<Longrightarrow> hash_pairs H nodes ! j = H (nodes ! (2 * j) @ nodes ! (2 * j + 1))"
proof (induction H nodes arbitrary: j rule: hash_pairs.induct)
  case (1 H l r rest)
  then show ?case by (cases j) simp_all
qed simp_all

lemma length_hash_pairs_pow2:
  "length nodes = 2 ^ Suc k \<Longrightarrow> length (hash_pairs H nodes) = 2 ^ k"
  by (simp add: length_hash_pairs)

lemma createHashes_single: "length nodes = 1 \<Longrightarrow> createHashes H nodes = [nodes]"
  by (simp add: createHashes.simps [of H nodes])

lemma createHashes_step:
  "length nodes = 2 ^ Suc k \<Longrightarrow> createHashes H nodes = nodes # createHashes H (hash_pairs H nodes)"
proof -
  assume "length nodes = 2 ^ Suc k"
  then have "1 < length nodes"
    using one_less_power [of "2::nat" "Suc k"] by simp
  then show ?thesis by (simp add: createHashes.simps [of H nodes])
qed

lemma createHashes_nonempty: "createHashes H nodes \<noteq> []"
  by (simp add: createHashes.simps [of H nodes])

lemma getRoot_Cons: "layers \<noteq> [] \<Longrightarrow> getRoot (layer # layers) = getRoot layers"
  by (simp add: getRoot_def)

lemma inclusion_proof_folds:
  "length nodes = 2 ^ k \<Longrightarrow> i < 2 ^ k \<Longrightarrow>
     fold_siblings H (nodes ! i) i (getProof_from (createHashes H nodes) i)
       = getRoot (createHashes H nodes)"
proof (induction k arbitrary: nodes i)
  case 0
  then obtain x where "nodes = [x]"
    by (cases nodes) auto
  with 0 show ?case
    by (simp add: createHashes_single getRoot_def)
next
  case (Suc k)
  let ?up = "hash_pairs H nodes"
  have len: "length ?up = 2 ^ k"
    using Suc.prems(1) by (rule length_hash_pairs_pow2)
  have half: "i div 2 < 2 ^ k"
    using Suc.prems(2) by simp
  have tree: "createHashes H nodes = nodes # createHashes H ?up"
    using Suc.prems(1) by (rule createHashes_step)
  have ih: "fold_siblings H (?up ! (i div 2)) (i div 2) (getProof_from (createHashes H ?up) (i div 2))
      = getRoot (createHashes H ?up)"
    using Suc.IH [OF len half] .
  have bound: "2 * (i div 2) + 1 < length nodes"
    using Suc.prems by simp presburger
  show ?case
  proof (cases "i mod 2 = 1")
    case True
    then have i: "i = 2 * (i div 2) + 1" by presburger
    have pair: "i - 1 < length nodes" using Suc.prems by simp
    have "?up ! (i div 2) = H (nodes ! (i - 1) @ nodes ! i)"
      using hash_pairs_nth [OF bound, of H] i by (metis add_diff_cancel_right')
    with True pair ih show ?thesis
      by (simp add: tree getRoot_Cons createHashes_nonempty)
  next
    case False
    then have i: "i = 2 * (i div 2)" by presburger
    then have pair: "i + 1 < length nodes" using bound by simp
    have "?up ! (i div 2) = H (nodes ! i @ nodes ! (i + 1))"
      using hash_pairs_nth [OF bound, of H] i by metis
    with False pair ih show ?thesis
      by (simp add: tree getRoot_Cons createHashes_nonempty)
  qed
qed

lemma tree_shape:
  "length nodes = 2 ^ k \<Longrightarrow>
     length (createHashes H nodes) = k + 1
   \<and> createHashes H nodes ! 0 = nodes
   \<and> (\<forall>j \<le> k. length (createHashes H nodes ! j) = 2 ^ (k - j))
   \<and> (\<forall>j < k. \<forall>i < 2 ^ (k - j - 1).
         createHashes H nodes ! Suc j ! i =
           H (createHashes H nodes ! j ! (2 * i) @ createHashes H nodes ! j ! (2 * i + 1)))"
proof (induction k arbitrary: nodes)
  case 0
  then show ?case by (simp add: createHashes_single)
next
  case (Suc k)
  let ?up = "hash_pairs H nodes"
  have len: "length ?up = 2 ^ k"
    using Suc.prems(1) by (rule length_hash_pairs_pow2)
  have tree: "createHashes H nodes = nodes # createHashes H ?up"
    using Suc.prems(1) by (rule createHashes_step)
  note ih = Suc.IH [OF len]
  have a: "length (createHashes H nodes) = Suc k + 1"
    using ih tree by simp
  have b: "createHashes H nodes ! 0 = nodes"
    using tree by simp
  have c: "\<forall>j \<le> Suc k. length (createHashes H nodes ! j) = 2 ^ (Suc k - j)"
  proof (intro allI impI)
    fix j assume "j \<le> Suc k"
    then show "length (createHashes H nodes ! j) = 2 ^ (Suc k - j)"
      using ih tree Suc.prems by (cases j) simp_all
  qed
  have d: "\<forall>j < Suc k. \<forall>i < 2 ^ (Suc k - j - 1).
         createHashes H nodes ! Suc j ! i =
           H (createHashes H nodes ! j ! (2 * i) @ createHashes H nodes ! j ! (2 * i + 1))"
  proof (intro allI impI)
    fix j i assume j: "j < Suc k" and i: "i < (2::nat) ^ (Suc k - j - 1)"
    show "createHashes H nodes ! Suc j ! i =
           H (createHashes H nodes ! j ! (2 * i) @ createHashes H nodes ! j ! (2 * i + 1))"
    proof (cases j)
      case 0
      with i have "2 * i + 1 < length nodes" using Suc.prems by simp
      from hash_pairs_nth [OF this, of H] 0 ih show ?thesis
        by (simp add: tree)
    next
      case (Suc j')
      with j i ih show ?thesis
        by (simp add: tree)
    qed
  qed
  from a b c d show ?case by blast
qed

lemma getRoot_pow2:
  assumes "length nodes = 2 ^ k"
  shows "getRoot (createHashes H nodes) = createHashes H nodes ! k ! 0"
proof -
  from tree_shape [OF assms, of H]
  have l: "length (createHashes H nodes) = k + 1"
    and r: "length (createHashes H nodes ! k) = 2 ^ (k - k)"
    by simp_all
  from l have "last (createHashes H nodes) = createHashes H nodes ! k"
    by (simp add: last_conv_nth createHashes_nonempty)
  moreover from r obtain x where "createHashes H nodes ! k = [x]"
    by (cases "createHashes H nodes ! k") auto
  ultimately show ?thesis
    by (simp add: getRoot_def)
qed

lemma getStateBatchHeader_covers:
  assumes "getStateBatchHeader e h = Inr (Some b)"
  shows "prevTotalElements b \<le> h \<and> h < prevTotalElements b + batchSize b"
proof -
  from assms obtain events ev where
    "find (\<lambda>ev. covers ev h) events = Some ev"
    "batchSize b = args_batchSize ev" "prevTotalElements b = args_prevTotalElements ev"
    by (auto simp: getStateBatchHeader_def split: sum.splits option.splits)
  then show ?thesis
    using find_covers [of h events ev] by (simp add: covers_def)
qed

lemma assembleProof_result:
  assumes "length roots = length (stateRoots batch)"
    and "\<forall>i < length roots. arrayify (stateRoots batch ! i) = Some (roots ! i)"
    and "storageProof prf = sp # rest"
  shows "assembleProof K e batch (Value prf) m =
           Inr \<lparr> stateRoot = array_get (stateRoots batch) (height m - prevTotalElements batch),
                 stateRootBatchHeader = batch,
                 stateRootProof =
                   \<lparr> index = height m - prevTotalElements batch,
                     siblings =
                       getProof
                         (createHashes K
                            (map (\<lambda>i. if i < length roots then K (roots ! i) else K zeros32)
                               [0..<padded_length (length roots)]))
                         (height m - prevTotalElements batch) \<rparr>,
                 stateTrieWitness = rlp_encode e (accountProof prf),
                 storageTrieWitness = rlp_encode e sp \<rparr>"
  using leaves_of_elements [OF assms(1,2), of K] assms(3)
  by (simp add: assembleProof_def Let_def hash_buffer_eq)

text \<open>
  Claim C2. Take a message whose proof request succeeds and the batch header found for
  its height, with as many state roots as its \<open>batchSize\<close>, each the hex string of the
  bytes \<open>roots ! i\<close>. Then \<open>n = length roots\<close> is at least 1, and \<open>getMessageProof\<close>
  returns a proof built on the tree over \<open>2 ^ \<lceil>log 2 n\<rceil>\<close> leaves, leaf \<open>i\<close> being
  Keccak of \<open>roots ! i\<close> for \<open>i < n\<close> and Keccak of 32 zero bytes above. Every node
  of a layer is Keccak of its two children concatenated, and the top layer is the root
  alone. The proof's index is the height less \<open>prevTotalElements\<close>, its state root is
  the batch's root at that index, and folding the leaf at the index with the siblings,
  bottom-up, gives the root of the tree (so the batch root, when that is the tree's
  root).
\<close>

theorem state_root_proof:
  assumes "messageSlot K svc m = Inr slot"
    and "eth_getProof e (l2ToL1MessagePasser_address svc) [slot]
           (height m + blockOffset_blocks svc) = Inr (Value prf)"
    and "storageProof prf \<noteq> []"
    and "getStateBatchHeader e (height m) = Inr (Some batch)"
    and "int (length (stateRoots batch)) = batchSize batch"
    and "length roots = length (stateRoots batch)"
    and "\<forall>i < length roots. arrayify (stateRoots batch ! i) = Some (roots ! i)"
    and "k = ceil_log2 (length roots)"
    and "leaves = map (\<lambda>i. if i < length roots then K (roots ! i) else K (replicate 32 0)) [0..<2 ^ k]"
    and "tree = createHashes K leaves"
    and "idx = nat (height m - prevTotalElements batch)"
  shows "\<exists>p. getMessageProof K e svc m = (Inr (Some p), [])
       \<and> 1 \<le> length roots
       \<and> int k = \<lceil>log 2 (real (length roots))\<rceil>
       \<and> length tree = k + 1
       \<and> tree ! 0 = leaves
       \<and> (\<forall>j < k. \<forall>i < 2 ^ (k - j - 1).
             tree ! Suc j ! i = K (tree ! j ! (2 * i) @ tree ! j ! (2 * i + 1)))
       \<and> getRoot tree = tree ! k ! 0
       \<and> idx < length roots
       \<and> index (stateRootProof p) = height m - prevTotalElements batch
       \<and> stateRoot p = Some (stateRoots batch ! idx)
       \<and> stateRootBatchHeader p = batch
       \<and> siblings (stateRootProof p) = getProof tree (index (stateRootProof p))
       \<and> fold_siblings K (leaves ! idx) idx (siblings (stateRootProof p)) = getRoot tree
       \<and> (arrayify (batchRoot batch) = Some (getRoot tree) \<longrightarrow>
            arrayify (batchRoot batch) =
              Some (fold_siblings K (leaves ! idx) idx (siblings (stateRootProof p))))"
proof -
  from getStateBatchHeader_covers [OF assms(4)]
  have cov: "prevTotalElements batch \<le> height m" "height m < prevTotalElements batch + batchSize batch"
    by simp_all
  with assms(5,6,11) have idx: "idx < length roots" "int idx = height m - prevTotalElements batch"
    by simp_all
  then have n: "1 \<le> length roots" by simp
  have pad: "padded_length (length roots) = 2 ^ k"
    using n assms(8) by (simp add: padded_length_pow2)
  have len: "length leaves = 2 ^ k"
    using assms(9) by simp
  obtain sp rest where sp: "storageProof prf = sp # rest"
    using assms(3) by (cases "storageProof prf") auto
  let ?p = "\<lparr> stateRoot = array_get (stateRoots batch) (height m - prevTotalElements batch),
             stateRootBatchHeader = batch,
             stateRootProof =
               \<lparr> index = height m - prevTotalElements batch,
                 siblings = getProof tree (height m - prevTotalElements batch) \<rparr>,
             stateTrieWitness = rlp_encode e (accountProof prf),
             storageTrieWitness = rlp_encode e sp \<rparr>"
  have "assembleProof K e batch (Value prf) m = Inr ?p"
    using assembleProof_result [OF assms(6,7) sp, of K e m, unfolded zeros32_def] pad assms(9,10)
    by simp
  then have res: "getMessageProof K e svc m = (Inr (Some ?p), [])"
    using assms(1,2,4) by (simp add: getMessageProof_def)
  have root: "stateRoot ?p = Some (stateRoots batch ! idx)"
    using cov assms(5) by (simp add: array_get_def assms(11))
  have sib: "siblings (stateRootProof ?p) = getProof_from tree idx"
    using cov by (simp add: getProof_def assms(11))
  have fold: "fold_siblings K (leaves ! idx) idx (getProof_from tree idx) = getRoot tree"
    unfolding assms(10)
  proof (rule inclusion_proof_folds [OF len])
    have "length roots \<le> 2 ^ k"
      using ceil_log2_bounds [OF n] assms(8) by simp
    with idx(1) show "idx < 2 ^ k" by simp
  qed
  from tree_shape [OF len, of K]
  have shape: "length tree = k + 1" "tree ! 0 = leaves"
    "\<forall>j < k. \<forall>i < 2 ^ (k - j - 1).
        tree ! Suc j ! i = K (tree ! j ! (2 * i) @ tree ! j ! (2 * i + 1))"
    by (simp_all add: assms(10))
  have top: "getRoot tree = tree ! k ! 0"
    unfolding assms(10) using len by (rule getRoot_pow2)
  have lg: "int k = \<lceil>log 2 (real (length roots))\<rceil>"
    using ceil_log2_real [OF n] assms(8) by simp
  show ?thesis
  proof (intro exI [of _ ?p] conjI)
    show "getMessageProof K e svc m = (Inr (Some ?p), [])" by (rule res)
    show "stateRoot ?p = Some (stateRoots batch ! idx)" by (rule root)
    show "fold_siblings K (leaves ! idx) idx (siblings (stateRootProof ?p)) = getRoot tree"
      using fold sib by simp
    show "arrayify (batchRoot batch) = Some (getRoot tree) \<longrightarrow>
            arrayify (batchRoot batch) =
              Some (fold_siblings K (leaves ! idx) idx (siblings (stateRootProof ?p)))"
      using fold sib by simp
  qed (use n lg shape top idx in simp_all)
qed

lemma arrayify_demo_root: "arrayify demo_root = Some (replicate 32 0xab)"
  by (simp add: arrayify_def demo_root_def hexval_def eval_nat_numeral)

lemma two_batches_header_1:
  "getStateBatchHeader two_batches 1 =
      Inr (Some \<lparr> batchIndex = 0, batchRoot = ''0x00'', batchSize = 5, prevTotalElements = 0,
                  extraData = ''0x'', stateRoots = replicate 5 demo_root \<rparr>)"
  using getStateBatchHeader_first [OF two_batches_simps(1), of 0 1 "hexlify [5]" "replicate 5 demo_root"]
  by (simp add: two_batches_simps covers_def demo_batch_def)

lemma ceil_log2_5: "ceil_log2 5 = 3"
  by code_simp

theorem state_root_proof_witness:
  "\<exists>p. getMessageProof toy_keccak two_batches demo_service demo_sent = (Inr (Some p), [])
     \<and> ceil_log2 5 = 3
     \<and> index (stateRootProof p) = 1
     \<and> stateRoot p = Some demo_root
     \<and> batchSize (stateRootBatchHeader p) = 5
     \<and> fold_siblings toy_keccak (toy_keccak (replicate 32 0xab)) 1 (siblings (stateRootProof p))
         = getRoot (createHashes toy_keccak
             (map (\<lambda>i. if i < 5 then toy_keccak (replicate 32 0xab) else toy_keccak (replicate 32 0))
                [0..<8]))"
proof -
  let ?batch = "\<lparr> batchIndex = 0, batchRoot = ''0x00'', batchSize = 5, prevTotalElements = 0,
                  extraData = ''0x'', stateRoots = replicate 5 demo_root \<rparr>"
  let ?answer = "\<lparr> accountProof = [''0x01''], storageProof = [[''0x02'']] \<rparr>"
  let ?roots = "replicate 5 (replicate 32 (0xab :: 8 word))"
  let ?leaves = "map (\<lambda>i. if i < length ?roots then toy_keccak (?roots ! i)
                          else toy_keccak (replicate 32 0)) [0..<2 ^ ceil_log2 (length ?roots)]"
  have c: "arrayify (calldata demo_sent) = Some [0x12, 0x34, 0x12, 0x34, 0x12, 0x34, 0x12, 0x34]"
    by (simp add: demo_sent_def arrayify_demo_payload)
  note slot = messageSlot_bytes [OF c arrayify_demo_address, of toy_keccak]
  have g: "eth_getProof two_batches (l2ToL1MessagePasser_address demo_service) [s]
      (height demo_sent + blockOffset_blocks demo_service) = Inr (Value ?answer)" for s
    by (simp add: two_batches_def demo_env_def)
  have sp: "storageProof ?answer \<noteq> []"
    by simp
  have h: "getStateBatchHeader two_batches (height demo_sent) = Inr (Some ?batch)"
    using two_batches_header_1 by (simp add: demo_sent_def)
  have l: "int (length (stateRoots ?batch)) = batchSize ?batch"
    by simp
  have r: "length ?roots = length (stateRoots ?batch)"
    by simp
  have a: "\<forall>i < length ?roots. arrayify (stateRoots ?batch ! i) = Some (?roots ! i)"
    by (simp add: arrayify_demo_root)
  from state_root_proof [OF slot g sp h l r a refl refl refl refl]
  obtain p where p: "getMessageProof toy_keccak two_batches demo_service demo_sent = (Inr (Some p), [])"
    "index (stateRootProof p) = height demo_sent - prevTotalElements ?batch"
    "stateRoot p = Some (stateRoots ?batch ! nat (height demo_sent - prevTotalElements ?batch))"
    "stateRootBatchHeader p = ?batch"
    "fold_siblings toy_keccak (?leaves ! nat (height demo_sent - prevTotalElements ?batch))
       (nat (height demo_sent - prevTotalElements ?batch)) (siblings (stateRootProof p))
       = getRoot (createHashes toy_keccak ?leaves)"
    by blast
  have i: "nat (height demo_sent - prevTotalElements ?batch) = 1"
    by (simp add: demo_sent_def)
  have lv: "?leaves = map (\<lambda>i. if i < 5 then toy_keccak (replicate 32 0xab) else toy_keccak (replicate 32 0)) [0..<8]"
    by (simp add: ceil_log2_5)
  let ?L = "map (\<lambda>i. if i < 5 then toy_keccak (replicate 32 0xab) else toy_keccak (replicate 32 0)) [0..<8]"
  have n: "?L ! 1 = toy_keccak (replicate 32 0xab)"
    by (simp del: upt_Suc)
  from p(5) have f: "fold_siblings toy_keccak (toy_keccak (replicate 32 0xab)) 1
      (siblings (stateRootProof p)) = getRoot (createHashes toy_keccak ?L)"
    unfolding i lv n .
  from p(2,3,4) have "index (stateRootProof p) = 1" "stateRoot p = Some demo_root"
    "batchSize (stateRootBatchHeader p) = 5"
    by (simp_all add: demo_sent_def)
  with p(1) f ceil_log2_5 show ?thesis
    by blast
qed

section \<open>Which messages a pass takes up\<close>

lemma found_heights_append: "found_heights (xs @ ys) = found_heights xs @ found_heights ys"
  by (induction xs rule: found_heights.induct) simp_all


lemma advance_logs: "advance e n = (r, n', lg) \<Longrightarrow> found_heights lg = []"
proof (induction e n arbitrary: r n' lg rule: advance.induct)
  case (1 e n)
  then show ?case
    by (subst (asm) (2) advance.simps) (auto split: sum.splits if_splits option.splits prod.splits)
qed




lemma getMessageProof_fields:
  assumes "l2CrossDomainMessenger_address svc' = l2CrossDomainMessenger_address svc"
    and "l2ToL1MessagePasser_address svc' = l2ToL1MessagePasser_address svc"
    and "blockOffset_blocks svc' = blockOffset_blocks svc"
  shows "getMessageProof K e svc' m = getMessageProof K e svc m"
  using assms by (simp add: getMessageProof_def messageSlot_def cong: sum.case_cong)

lemma relayMessages_fields:
  assumes "l2CrossDomainMessenger_address svc' = l2CrossDomainMessenger_address svc"
    and "l2ToL1MessagePasser_address svc' = l2ToL1MessagePasser_address svc"
    and "blockOffset_blocks svc' = blockOffset_blocks svc"
  shows "relayMessages K e svc' ms = relayMessages K e svc ms"
  by (induction ms)
    (simp_all add: getMessageProof_fields [OF assms] cong: sum.case_cong bool.case_cong prod.case_cong)

lemma getSentMessages_fields:
  "blockOffset_blocks svc' = blockOffset_blocks svc \<Longrightarrow>
     getSentMessages K e svc' a b = getSentMessages K e svc a b"
  by (simp add: getSentMessages_def cong: sum.case_cong)

text \<open>What a pass does once the cursor has advanced without a throw.\<close>

lemma tick_finalized:
  assumes "isTransactionFinalized e (nextUnfinalizedTxHeight svc) = Inr True"
    and "advance e (nextUnfinalizedTxHeight svc) = (None, n, lg)"
    and "pre = [Sleep (pollingInterval_ms svc), Log Checking] @ lg @
                [Log (FoundTotal (n - nextUnfinalizedTxHeight svc))]"
  shows "tick K e svc =
    (case getSentMessages K e svc (nextUnfinalizedTxHeight svc) n of
       Inl err \<Rightarrow>
         (Some err, svc\<lparr>lastFinalizedTxHeight := nextUnfinalizedTxHeight svc,
                        nextUnfinalizedTxHeight := n,
                        trace := trace svc @ pre\<rparr>)
     | Inr messages \<Rightarrow>
         (fst (relayMessages K e svc messages),
          svc\<lparr>lastFinalizedTxHeight := nextUnfinalizedTxHeight svc,
               nextUnfinalizedTxHeight := n,
               trace := trace svc @ pre @ (if length messages = 0 then [Log NoMessages] else []) @
                        snd (relayMessages K e svc messages)\<rparr>))"
proof -
  let ?svc2 = "svc\<lparr>trace := trace svc @ [Sleep (pollingInterval_ms svc), Log Checking],
                   lastFinalizedTxHeight := nextUnfinalizedTxHeight svc,
                   nextUnfinalizedTxHeight := n,
                   trace := trace svc @ [Sleep (pollingInterval_ms svc), Log Checking] @ lg,
                   trace := trace svc @ [Sleep (pollingInterval_ms svc), Log Checking] @ lg @
                     [Log (FoundTotal (n - nextUnfinalizedTxHeight svc))]\<rparr>"
  have s: "getSentMessages K e ?svc2 = getSentMessages K e svc"
    by (intro ext getSentMessages_fields) simp
  have r: "relayMessages K e ?svc2 = relayMessages K e svc"
    by (intro ext relayMessages_fields) simp_all
  have "tick K e svc =
    (case getSentMessages K e ?svc2 (nextUnfinalizedTxHeight svc) n of
       Inl err \<Rightarrow> (Some err, ?svc2)
     | Inr messages \<Rightarrow>
         (case relayMessages K e ?svc2 messages of
            (r', acts) \<Rightarrow>
              (r', ?svc2\<lparr>trace := trace ?svc2 @
                     (if length messages = 0 then [Log NoMessages] else []) @ acts\<rparr>)))"
    using assms(1,2) by (simp add: tick_def Let_def cong: sum.case_cong prod.case_cong)
  then show ?thesis
    unfolding s r by (simp add: assms(3) split: sum.splits prod.splits)
qed



section \<open>C9: a payload that does not decode\<close>

lemma map_throwing_fails:
  "x \<in> set xs \<Longrightarrow> f x = Inl err \<Longrightarrow> \<exists>err'. map_throwing f xs = Inl err'"
  by (induction xs) (auto split: sum.splits)

lemma getSentMessages_decode_failure:
  assumes "sentMessageLogs e = Inr events"
    and "ev \<in> set events"
    and "a + blockOffset_blocks svc \<le> blockNumber ev"
    and "blockNumber ev \<le> b + blockOffset_blocks svc"
    and "decodeRelayMessage e (args_message ev) = Inl err"
  shows "\<exists>err'. getSentMessages K e svc a b = Inl err'"
proof -
  let ?evs = "filter (\<lambda>ev. a + blockOffset_blocks svc \<le> blockNumber ev \<and>
                          blockNumber ev \<le> b + blockOffset_blocks svc) events"
  have m: "ev \<in> set ?evs"
    using assms(2,3,4) by simp
  have f: "toSentMessage K e (blockOffset_blocks svc) ev = Inl err"
    using assms(5) by (simp add: toSentMessage_def)
  from map_throwing_fails [of ev ?evs "toSentMessage K e (blockOffset_blocks svc)" err, OF m f]
  obtain err' where "map_throwing (toSentMessage K e (blockOffset_blocks svc)) ?evs = Inl err'" ..
  then show ?thesis
    using assms(1) by (simp add: getSentMessages_def queryFilter_def)
qed

text \<open>
  Claim C9, amended. When the cursor has advanced in a pass and the payload of some
  \<^verbatim>\<open>SentMessage\<close> event in the scanned block range fails to decode, the pass throws:
  no message of the range is taken up or relayed in it, the cursor keeps the advance of
  the pass, and the loop ends there, whatever environments would have followed.
\<close>

theorem decode_failure_ends_loop:
  assumes "isTransactionFinalized e (nextUnfinalizedTxHeight svc) = Inr True"
    and "advance e (nextUnfinalizedTxHeight svc) = (None, n, lg)"
    and "sentMessageLogs e = Inr events"
    and "ev \<in> set events"
    and "nextUnfinalizedTxHeight svc + blockOffset_blocks svc \<le> blockNumber ev"
    and "blockNumber ev \<le> n + blockOffset_blocks svc"
    and "decodeRelayMessage e (args_message ev) = Inl err"
  shows "\<exists>err' svc'. tick K e svc = (Some err', svc')
       \<and> run K (e # es) svc = (Some err', svc')
       \<and> lastFinalizedTxHeight svc' = nextUnfinalizedTxHeight svc
       \<and> nextUnfinalizedTxHeight svc' = n
       \<and> found_heights (trace svc') = found_heights (trace svc)
       \<and> relays (trace svc') = relays (trace svc)"
proof -
  from getSentMessages_decode_failure [OF assms(3-7), of K]
  obtain err' where g: "getSentMessages K e svc (nextUnfinalizedTxHeight svc) n = Inl err'"
    by blast
  let ?pre = "[Sleep (pollingInterval_ms svc), Log Checking] @ lg @
                [Log (FoundTotal (n - nextUnfinalizedTxHeight svc))]"
  let ?svc' = "svc\<lparr>lastFinalizedTxHeight := nextUnfinalizedTxHeight svc,
                    nextUnfinalizedTxHeight := n,
                    trace := trace svc @ ?pre\<rparr>"
  have t: "tick K e svc = (Some err', ?svc')"
    unfolding tick_finalized [OF assms(1,2) refl, of K] g by simp
  have q: "found_heights lg = []" "relays lg = []"
    using advance_logs [OF assms(2)] advance_quiet [OF assms(2)] by simp_all
  have r: "run K (e # es) svc = (Some err', ?svc')"
    unfolding run.simps t by simp
  have f: "found_heights (trace ?svc') = found_heights (trace svc)"
    using q(1) by (simp add: found_heights_append)
  have l: "relays (trace ?svc') = relays (trace svc)"
    using q(2) by (simp add: relays_append)
  have c: "lastFinalizedTxHeight ?svc' = nextUnfinalizedTxHeight svc"
    "nextUnfinalizedTxHeight ?svc' = n"
    by simp_all
  from t r c f l show ?thesis
    by blast
qed

lemma malformed_env_finalized: "isTransactionFinalized malformed_env 0 = Inr True"
  by code_simp

lemma malformed_env_advance: "advance malformed_env 0 = (None, 3, [Log (FoundBatch 3)])"
  by code_simp

lemma demo_service_fields:
  "nextUnfinalizedTxHeight demo_service = 0"
  "lastFinalizedTxHeight demo_service = 0"
  "blockOffset_blocks demo_service = 0"
  "pollingInterval_ms demo_service = 5000"
  "trace demo_service = [Log WarnPollingInterval]"
  by (simp_all add: demo_service_def)

lemma malformed_env_tick:
  "tick toy_keccak malformed_env demo_service =
     (Some DecodeError,
      demo_service\<lparr>lastFinalizedTxHeight := 0, nextUnfinalizedTxHeight := 3,
        trace := [Log WarnPollingInterval, Sleep 5000, Log Checking, Log (FoundBatch 3),
                  Log (FoundTotal 3)]\<rparr>)"
proof -
  have g: "getSentMessages toy_keccak malformed_env demo_service 0 3 = Inl DecodeError"
    by (simp add: getSentMessages_def queryFilter_def malformed_env_def demo_env_def
        toSentMessage_def demo_message_def demo_service_fields demo_payload_def)
  have f: "isTransactionFinalized malformed_env (nextUnfinalizedTxHeight demo_service) = Inr True"
    using malformed_env_finalized by (simp add: demo_service_fields)
  have a: "advance malformed_env (nextUnfinalizedTxHeight demo_service) = (None, 3, [Log (FoundBatch 3)])"
    using malformed_env_advance by (simp add: demo_service_fields)
  show ?thesis
    unfolding tick_finalized [OF f a refl, of toy_keccak]
    by (simp add: demo_service_fields g)
qed

text \<open>
  Claim C9 says that a payload that fails to decode costs one event or one pass and that
  the loop runs on. On the code the loop ends: below, the first pass throws on the
  malformed payload at block 1, the well-formed message at block 2 is not taken up, no
  second pass happens (one sleep only) although a second environment is there, and the
  cursor stays at 3, beyond both messages.
\<close>

theorem decode_failure_counterexample:
  "fst (run toy_keccak [malformed_env, malformed_env] demo_service) = Some DecodeError
   \<and> sleeps (trace (snd (run toy_keccak [malformed_env, malformed_env] demo_service))) = [5000]
   \<and> found_heights (trace (snd (run toy_keccak [malformed_env, malformed_env] demo_service))) = []
   \<and> relays (trace (snd (run toy_keccak [malformed_env, malformed_env] demo_service))) = []
   \<and> nextUnfinalizedTxHeight (snd (run toy_keccak [malformed_env, malformed_env] demo_service)) = 3"
proof -
  have "run toy_keccak [malformed_env, malformed_env] demo_service =
     (Some DecodeError,
      demo_service\<lparr>lastFinalizedTxHeight := 0, nextUnfinalizedTxHeight := 3,
        trace := [Log WarnPollingInterval, Sleep 5000, Log Checking, Log (FoundBatch 3),
                  Log (FoundTotal 3)]\<rparr>)"
    unfolding run.simps malformed_env_tick by simp
  then show ?thesis
    by simp
qed

theorem decode_failure_ends_loop_witness:
  "decodeRelayMessage malformed_env ''0xdeadbeef'' = Inl DecodeError
   \<and> (\<exists>err' svc'. tick toy_keccak malformed_env demo_service = (Some err', svc')
       \<and> run toy_keccak [malformed_env, two_batches] demo_service = (Some err', svc')
       \<and> nextUnfinalizedTxHeight svc' = 3
       \<and> relays (trace svc') = [])"
proof -
  note s = demo_service_fields
  have l: "sentMessageLogs malformed_env =
      Inr [\<lparr> args_message = ''0xdeadbeef'', blockNumber = 1 \<rparr>, demo_message 2]"
    by (simp add: malformed_env_def demo_env_def)
  have d: "decodeRelayMessage malformed_env
      (args_message \<lparr> args_message = ''0xdeadbeef'', blockNumber = 1 \<rparr>) = Inl DecodeError"
    by (simp add: malformed_env_def demo_env_def demo_payload_def)
  have "\<exists>err' svc'. tick toy_keccak malformed_env demo_service = (Some err', svc')
       \<and> run toy_keccak (malformed_env # [two_batches]) demo_service = (Some err', svc')
       \<and> lastFinalizedTxHeight svc' = nextUnfinalizedTxHeight demo_service
       \<and> nextUnfinalizedTxHeight svc' = 3
       \<and> found_heights (trace svc') = found_heights (trace demo_service)
       \<and> relays (trace svc') = relays (trace demo_service)"
  proof (rule decode_failure_ends_loop)
    show "isTransactionFinalized malformed_env (nextUnfinalizedTxHeight demo_service) = Inr True"
      using malformed_env_finalized s by simp
    show "advance malformed_env (nextUnfinalizedTxHeight demo_service) = (None, 3, [Log (FoundBatch 3)])"
      using malformed_env_advance s by simp
    show "sentMessageLogs malformed_env =
      Inr [\<lparr> args_message = ''0xdeadbeef'', blockNumber = 1 \<rparr>, demo_message 2]"
      by (rule l)
    show "\<lparr> args_message = ''0xdeadbeef'', blockNumber = 1 \<rparr>
        \<in> set [\<lparr> args_message = ''0xdeadbeef'', blockNumber = 1 \<rparr>, demo_message 2]"
      by simp
    show "nextUnfinalizedTxHeight demo_service + blockOffset_blocks demo_service
        \<le> blockNumber \<lparr> args_message = ''0xdeadbeef'', blockNumber = 1 \<rparr>"
      using s by simp
    show "blockNumber \<lparr> args_message = ''0xdeadbeef'', blockNumber = 1 \<rparr>
        \<le> 3 + blockOffset_blocks demo_service"
      using s by simp
    show "decodeRelayMessage malformed_env
      (args_message \<lparr> args_message = ''0xdeadbeef'', blockNumber = 1 \<rparr>) = Inl DecodeError"
      by (rule d)
  qed
  then obtain err' svc' where
    "tick toy_keccak malformed_env demo_service = (Some err', svc')"
    "run toy_keccak [malformed_env, two_batches] demo_service = (Some err', svc')"
    "nextUnfinalizedTxHeight svc' = 3" "relays (trace svc') = []"
    using s(5) by auto
  moreover have "decodeRelayMessage malformed_env ''0xdeadbeef'' = Inl DecodeError"
    using d by simp
  ultimately show ?thesis
    by blast
qed

section \<open>C8: a proof that cannot be built\<close>


text \<open>
  An answer \<^verbatim>\<open>null\<close> is not such a failure: it is not \<^verbatim>\<open>=== undefined\<close>, and once a
  batch is found the function throws, outside both \<^verbatim>\<open>try\<close> blocks.
\<close>

lemma getMessageProof_null:
  assumes "messageSlot K svc m = Inr slot"
    and "eth_getProof e (l2ToL1MessagePasser_address svc) [slot]
           (height m + blockOffset_blocks svc) = Inr Null"
    and "getStateBatchHeader e (height m) = Inr (Some batch)"
  shows "\<exists>err. getMessageProof K e svc m = (Inl err, [])"
  using assms
  by (auto simp: getMessageProof_def assembleProof_def Let_def split: sum.splits)












text \<open>
  The boundary case as a run: the message at height 2 is taken up in both passes, first
  without a proof and then with one.
\<close>

lemma boundary_retry_run:
  "fst (run toy_keccak [boundary_env, boundary_retry_env] demo_service) = None
   \<and> found_heights (trace (snd (run toy_keccak [boundary_env, boundary_retry_env] demo_service)))
       = [2, 2]
   \<and> relay_summary (trace (snd (run toy_keccak [boundary_env, boundary_retry_env] demo_service)))
       = [(2, False), (2, True)]"
  by code_simp


section \<open>C1: the finalization gate\<close>

text \<open>
  Claim C1, the finalization gate: no relay is submitted for a message at height \<open>h\<close>
  unless a batch covers \<open>h\<close> and \<^verbatim>\<open>insideFraudProofWindow\<close> answered false for it; in
  particular none for a message at or beyond the first unfinalized height. The service
  does not keep to it: it scans the blocks up to \<open>nextUnfinalizedTxHeight + blockOffset\<close>
  with that block included. Below, batch 0 (height 0) is finalized and batch 1
  (height 1) is still inside the fraud-proof window; one pass leaves the cursor at 1,
  takes up the message at height 1 and submits it with a proof on batch 1.
\<close>

theorem finalization_gate_violated:
  "fst (tick toy_keccak gate_env gate_service) = None
   \<and> nextUnfinalizedTxHeight (snd (tick toy_keccak gate_env gate_service)) = 1
   \<and> isTransactionFinalized gate_env 1 = Inr False
   \<and> relay_windows gate_env (trace (snd (tick toy_keccak gate_env gate_service)))
       = [(1, Some (Inr True))]"
  by code_simp

text \<open>
  A second way past the gate, which does not depend on the upper bound of the scan: the
  cursor adds whole batch sizes to wherever it stands. Started at height 2, inside the
  first of two finalized batches of sizes 5 and 7, it stops at 14, two heights into a
  third batch that is still inside the fraud-proof window, and the message at height 13
  is submitted.
\<close>

lemma finalization_gate_late_start:
  "fst (tick toy_keccak late_start_env late_start_service) = None
   \<and> nextUnfinalizedTxHeight (snd (tick toy_keccak late_start_env late_start_service)) = 14
   \<and> isTransactionFinalized late_start_env 13 = Inr False
   \<and> relay_windows late_start_env (trace (snd (tick toy_keccak late_start_env late_start_service)))
       = [(13, Some (Inr True))]"
  by code_simp

end
